theory Spec2Isabelle
  imports Complex_Main "HOL-Library.Multiset" "HOL-Library.Sublist" "HOL-Library.Word"
begin

unbundle bit_operations_syntax

section \<open>Data model\<close>

text \<open>
  The catalog records of package catwalk, with the fields the programs read.
  Go's \<^verbatim>\<open>float64\<close> prices, scores and costs are modelled as \<^typ>\<open>real\<close>
  (exact arithmetic: rounding, infinities and NaN are outside the model), and
  \<^verbatim>\<open>int64\<close>/\<^verbatim>\<open>int\<close> quantities as \<^typ>\<open>int\<close> (the programs only compare
  them, convert them to \<^verbatim>\<open>float64\<close> or add token counts).
\<close>

record Model =
  ID :: string
  Name :: string
  CostPer1MIn :: real
  CostPer1MOut :: real
  CostPer1MInCached :: real
  CostPer1MOutCached :: real
  ContextWindow :: int
  DefaultMaxTokens :: int
  CanReason :: bool
  SupportsImages :: bool

record Provider =
  ProviderID :: string
  ProviderName :: string
  Models :: "Model list"

text \<open>
  The functions of Go's package \<^verbatim>\<open>strings\<close> whose result depends on Unicode
  tables are parameters of the model: every theorem below holds for any
  implementation of them. \<open>ascii_strings\<close> is the instance used on concrete
  (ASCII) inputs.
\<close>

record strings_pkg =
  EqualFold :: "string \<Rightarrow> string \<Rightarrow> bool"
  ToLower :: "string \<Rightarrow> string"
  TrimSpace :: "string \<Rightarrow> string"

definition lowerChar :: "char \<Rightarrow> char" where
  "lowerChar c =
     (if 65 \<le> (of_char c :: nat) \<and> (of_char c :: nat) \<le> 90
      then char_of ((of_char c :: nat) + 32) else c)"

definition isSpaceChar :: "char \<Rightarrow> bool" where
  "isSpaceChar c = ((of_char c :: nat) \<in> {9, 10, 11, 12, 13, 32})"

definition ascii_strings :: strings_pkg where
  "ascii_strings =
     \<lparr> EqualFold = (\<lambda>s t. map lowerChar s = map lowerChar t),
       ToLower = map lowerChar,
       TrimSpace = (\<lambda>s. rev (dropWhile isSpaceChar (rev (dropWhile isSpaceChar s)))) \<rparr>"

text \<open>\<^verbatim>\<open>strings.Contains(s, substr)\<close>: \<open>substr\<close> occurs in \<open>s\<close> at some byte offset.\<close>

definition Contains :: "string \<Rightarrow> string \<Rightarrow> bool" where
  "Contains s substr =
     list_ex (\<lambda>i. take (length substr) (drop i s) = substr) [0 ..< Suc (length s)]"

text \<open>\<^verbatim>\<open>strings.HasPrefix(s, prefix)\<close>.\<close>

definition HasPrefix :: "string \<Rightarrow> string \<Rightarrow> bool" where
  "HasPrefix s pre = (take (length pre) s = pre)"

section \<open>Go's \<^verbatim>\<open>sort.Slice\<close>\<close>

text \<open>
  \<^verbatim>\<open>scoreModels\<close> and \<^verbatim>\<open>calculateScores\<close> rank with \<^verbatim>\<open>sort.Slice\<close> of Go's standard
  library, which is pattern-defeating quicksort (\<^verbatim>\<open>pdqsort_func\<close> of package sort,
  Go 1.19 and later).
  The slice is a list, \<^verbatim>\<open>data.Less(i, j)\<close> is \<open>lessf (data ! i) (data ! j)\<close> and
  \<^verbatim>\<open>data.Swap(i, j)\<close> is \<open>Swap data i j\<close>. Indices are natural numbers.
\<close>

definition Swap :: "'a list \<Rightarrow> nat \<Rightarrow> nat \<Rightarrow> 'a list" where
  "Swap data i j = data[i := data ! j, j := data ! i]"

fun bitsLen :: "nat \<Rightarrow> nat" where
  "bitsLen n = (if n = 0 then 0 else Suc (bitsLen (n div 2)))"

text \<open>
  \<^verbatim>\<open>insertionSort_func\<close>: the inner loop (\<^verbatim>\<open>for j := i; j > a && less(j, j-1); j--\<close>)
  and the outer loop (\<^verbatim>\<open>for i := a + 1; i < b; i++\<close>).
\<close>

function insertShift :: "('a \<Rightarrow> 'a \<Rightarrow> bool) \<Rightarrow> 'a list \<Rightarrow> nat \<Rightarrow> nat \<Rightarrow> 'a list" where
  "insertShift lessf data a j =
     (if j > a \<and> lessf (data ! j) (data ! (j - 1))
      then insertShift lessf (Swap data j (j - 1)) a (j - 1) else data)"
  by pat_completeness auto
termination
  by (relation "measure (\<lambda>(lessf, data, a, j). j)") auto

declare insertShift.simps [simp del]

function insertionSort_loop ::
  "('a \<Rightarrow> 'a \<Rightarrow> bool) \<Rightarrow> 'a list \<Rightarrow> nat \<Rightarrow> nat \<Rightarrow> nat \<Rightarrow> 'a list" where
  "insertionSort_loop lessf data a b i =
     (if i < b then insertionSort_loop lessf (insertShift lessf data a i) a b (i + 1) else data)"
  by pat_completeness auto
termination
  by (relation "measure (\<lambda>(lessf, data, a, b, i). b - i)") auto

declare insertionSort_loop.simps [simp del]

definition insertionSort_func :: "('a \<Rightarrow> 'a \<Rightarrow> bool) \<Rightarrow> 'a list \<Rightarrow> nat \<Rightarrow> nat \<Rightarrow> 'a list" where
  "insertionSort_func lessf data a b = insertionSort_loop lessf data a b (a + 1)"

text \<open>\<^verbatim>\<open>siftDown_func\<close> and \<^verbatim>\<open>heapSort_func\<close>; the two counting-down loops of the
  heap sort are recursions on the loop counter.\<close>

function siftDown_loop ::
  "('a \<Rightarrow> 'a \<Rightarrow> bool) \<Rightarrow> 'a list \<Rightarrow> nat \<Rightarrow> nat \<Rightarrow> nat \<Rightarrow> 'a list" where
  "siftDown_loop lessf data hi first rootIdx =
     (let child = 2 * rootIdx + 1 in
      if child \<ge> hi then data
      else
        (let child = (if child + 1 < hi \<and>
                         lessf (data ! (first + child)) (data ! (first + child + 1))
                      then child + 1 else child)
         in if \<not> lessf (data ! (first + rootIdx)) (data ! (first + child)) then data
            else siftDown_loop lessf (Swap data (first + rootIdx) (first + child)) hi first child))"
  by pat_completeness auto
termination
  by (relation "measure (\<lambda>(lessf, data, hi, first, rootIdx). hi - rootIdx)") (auto simp: Let_def)

declare siftDown_loop.simps [simp del]

definition siftDown_func ::
  "('a \<Rightarrow> 'a \<Rightarrow> bool) \<Rightarrow> 'a list \<Rightarrow> nat \<Rightarrow> nat \<Rightarrow> nat \<Rightarrow> 'a list" where
  "siftDown_func lessf data lo hi first = siftDown_loop lessf data hi first lo"

fun heapBuild :: "('a \<Rightarrow> 'a \<Rightarrow> bool) \<Rightarrow> 'a list \<Rightarrow> nat \<Rightarrow> nat \<Rightarrow> nat \<Rightarrow> 'a list" where
  "heapBuild lessf data hi first 0 = siftDown_func lessf data 0 hi first"
| "heapBuild lessf data hi first (Suc i) =
     heapBuild lessf (siftDown_func lessf data (Suc i) hi first) hi first i"

fun heapPop :: "('a \<Rightarrow> 'a \<Rightarrow> bool) \<Rightarrow> 'a list \<Rightarrow> nat \<Rightarrow> nat \<Rightarrow> 'a list" where
  "heapPop lessf data first 0 = data"
| "heapPop lessf data first (Suc i) =
     heapPop lessf (siftDown_func lessf (Swap data first (first + i)) 0 i first) first i"

definition heapSort_func :: "('a \<Rightarrow> 'a \<Rightarrow> bool) \<Rightarrow> 'a list \<Rightarrow> nat \<Rightarrow> nat \<Rightarrow> 'a list" where
  "heapSort_func lessf data a b =
     (let first = a; hi = b - a;
          data = heapBuild lessf data hi first ((hi - 1) div 2)
      in heapPop lessf data first hi)"

text \<open>
  The two scans of \<^verbatim>\<open>partition_func\<close> and \<^verbatim>\<open>partitionEqual_func\<close>:
  \<^verbatim>\<open>for i <= j && P(i) { i++ }\<close> and \<^verbatim>\<open>for i <= j && Q(j) { j-- }\<close>, where \<open>P\<close> and
  \<open>Q\<close> read the slice. Both functions start the scans at \<open>i = a + 1 > 0\<close>, so \<open>j\<close>
  is positive whenever it is decremented; \<open>scanDown\<close> stops at 0.
\<close>

function scanUp :: "('a list \<Rightarrow> nat \<Rightarrow> bool) \<Rightarrow> 'a list \<Rightarrow> nat \<Rightarrow> nat \<Rightarrow> nat" where
  "scanUp P data i j = (if i \<le> j \<and> P data i then scanUp P data (i + 1) j else i)"
  by pat_completeness auto
termination
  by (relation "measure (\<lambda>(P, data, i, j). Suc j - i)") auto

declare scanUp.simps [simp del]

fun scanDown :: "('a list \<Rightarrow> nat \<Rightarrow> bool) \<Rightarrow> 'a list \<Rightarrow> nat \<Rightarrow> nat \<Rightarrow> nat" where
  "scanDown Q data i 0 = 0"
| "scanDown Q data i (Suc j) =
     (if i \<le> Suc j \<and> Q data (Suc j) then scanDown Q data i j else Suc j)"

lemma scanUp_ge: "i \<le> scanUp P data i j"
proof (induction P data i j rule: scanUp.induct)
  case (1 P data i j)
  then show ?case by (subst scanUp.simps) (auto simp: le_Suc_eq)
qed

lemma scanUp_le: "i \<le> M \<Longrightarrow> j < M \<Longrightarrow> scanUp P data i j \<le> M"
proof (induction P data i j rule: scanUp.induct)
  case (1 P data i j)
  then show ?case by (subst scanUp.simps) auto
qed

lemma scanDown_le: "scanDown Q data i j \<le> j"
  by (induction Q data i j rule: scanDown.induct) auto

lemma scanDown_ge: "m \<le> j \<Longrightarrow> m < i \<Longrightarrow> m \<le> scanDown Q data i j"
  by (induction Q data i j rule: scanDown.induct) auto

function partitionLoop ::
  "('a list \<Rightarrow> nat \<Rightarrow> bool) \<Rightarrow> ('a list \<Rightarrow> nat \<Rightarrow> bool) \<Rightarrow> 'a list \<Rightarrow> nat \<Rightarrow> nat
   \<Rightarrow> 'a list \<times> nat \<times> nat" where
  "partitionLoop P Q data i j =
     (let i = scanUp P data i j;
          j = scanDown Q data i j
      in if i > j then (data, i, j)
         else partitionLoop P Q (Swap data i j) (i + 1) (j - 1))"
  by pat_completeness auto
termination
proof (relation "measure (\<lambda>(P, Q, data, i, j). Suc j - i)", goal_cases)
  case 1
  show ?case by simp
next
  case (2 P Q data i j i' j')
  have "i \<le> i'" using 2 scanUp_ge by metis
  moreover have "j' \<le> j" using 2 scanDown_le by metis
  ultimately show ?case using 2(3) by simp
qed

declare partitionLoop.simps [simp del]

lemma partitionLoop_bounds:
  "partitionLoop P Q data i j = (d, i', j') \<Longrightarrow>
   i \<le> i' \<and> j' \<le> j \<and> (\<forall>M. i \<le> M \<and> j < M \<longrightarrow> i' \<le> M) \<and>
   (\<forall>m. m \<le> j \<and> m < i \<longrightarrow> m \<le> j')"
proof (induction P Q data i j arbitrary: d i' j' rule: partitionLoop.induct)
  case (1 P Q data i j)
  define iu where "iu = scanUp P data i j"
  define jd where "jd = scanDown Q data iu j"
  have b1: "i \<le> iu" unfolding iu_def by (rule scanUp_ge)
  have b2: "jd \<le> j" unfolding jd_def by (rule scanDown_le)
  have b3: "\<And>M. i \<le> M \<Longrightarrow> j < M \<Longrightarrow> iu \<le> M" unfolding iu_def by (rule scanUp_le)
  have b4: "\<And>m. m \<le> j \<Longrightarrow> m < iu \<Longrightarrow> m \<le> jd" unfolding jd_def by (rule scanDown_ge)
  show ?case
  proof (cases "iu > jd")
    case True
    then have "(d, i', j') = (data, iu, jd)"
      using "1.prems" by (subst (asm) partitionLoop.simps) (auto simp: iu_def jd_def Let_def)
    then show ?thesis using b1 b2 b3 b4 by (auto intro: less_le_trans)
  next
    case False
    then have rec: "partitionLoop P Q (Swap data iu jd) (iu + 1) (jd - 1) = (d, i', j')"
      using "1.prems" by (subst (asm) partitionLoop.simps) (auto simp: iu_def jd_def Let_def)
    have ih0: "iu + 1 \<le> i' \<and> j' \<le> jd - 1 \<and> (\<forall>M. iu + 1 \<le> M \<and> jd - 1 < M \<longrightarrow> i' \<le> M) \<and>
      (\<forall>m. m \<le> jd - 1 \<and> m < iu + 1 \<longrightarrow> m \<le> j')"
      using "1.IH" [OF iu_def jd_def _ rec] False by simp
    have ih1: "iu + 1 \<le> i'" and ih2: "j' \<le> jd - 1"
      and ih3: "\<And>M. iu + 1 \<le> M \<Longrightarrow> jd - 1 < M \<Longrightarrow> i' \<le> M"
      and ih4: "\<And>m. m \<le> jd - 1 \<Longrightarrow> m < iu + 1 \<Longrightarrow> m \<le> j'"
      using ih0 by blast+
    have c1: "i \<le> i'" using ih1 b1 by linarith
    have c2: "j' \<le> j" using ih2 b2 by linarith
    have c3: "i' \<le> M" if "i \<le> M" "j < M" for M
    proof -
      have "iu + 1 \<le> M" using False b2 that by linarith
      moreover have "jd - 1 < M" using b2 that by linarith
      ultimately show ?thesis by (rule ih3)
    qed
    have c4: "m \<le> j'" if "m \<le> j" "m < i" for m
    proof -
      have "m < iu" using that b1 by linarith
      then have "m \<le> jd - 1" using False by linarith
      moreover have "m < iu + 1" using \<open>m < iu\<close> by linarith
      ultimately show ?thesis by (rule ih4)
    qed
    show ?thesis using c1 c2 c3 c4 by blast
  qed
qed

text \<open>\<^verbatim>\<open>partition_func\<close> returns the slice, \<open>newpivot\<close> and \<open>alreadyPartitioned\<close>;
  \<^verbatim>\<open>partitionEqual_func\<close> the slice and \<open>newpivot\<close>.\<close>

definition partition_func ::
  "('a \<Rightarrow> 'a \<Rightarrow> bool) \<Rightarrow> 'a list \<Rightarrow> nat \<Rightarrow> nat \<Rightarrow> nat \<Rightarrow> 'a list \<times> nat \<times> bool" where
  "partition_func lessf data a b pivot =
     (let data = Swap data a pivot;
          i = a + 1; j = b - 1;
          i = scanUp (\<lambda>d i. lessf (d ! i) (d ! a)) data i j;
          j = scanDown (\<lambda>d j. \<not> lessf (d ! j) (d ! a)) data i j
      in if i > j then (Swap data j a, j, True)
         else
           (let data = Swap data i j;
                i = i + 1; j = j - 1;
                (data, i, j) = partitionLoop (\<lambda>d i. lessf (d ! i) (d ! a))
                                 (\<lambda>d j. \<not> lessf (d ! j) (d ! a)) data i j
            in (Swap data j a, j, False)))"

definition partitionEqual_func ::
  "('a \<Rightarrow> 'a \<Rightarrow> bool) \<Rightarrow> 'a list \<Rightarrow> nat \<Rightarrow> nat \<Rightarrow> nat \<Rightarrow> 'a list \<times> nat" where
  "partitionEqual_func lessf data a b pivot =
     (let data = Swap data a pivot;
          i = a + 1; j = b - 1;
          (data, i, j) = partitionLoop (\<lambda>d i. \<not> lessf (d ! a) (d ! i))
                           (\<lambda>d j. lessf (d ! a) (d ! j)) data i j
      in (data, i))"

lemma partition_func_mid:
  assumes "a < b" and "partition_func lessf data a b pivot = (d, mid, ap)"
  shows "a \<le> mid \<and> mid < b"
proof -
  define d0 where "d0 = Swap data a pivot"
  define P where "P = (\<lambda>(d::'a list) i. lessf (d ! i) (d ! a))"
  define Q where "Q = (\<lambda>(d::'a list) j. \<not> lessf (d ! j) (d ! a))"
  define i1 where "i1 = scanUp P d0 (a + 1) (b - 1)"
  define j1 where "j1 = scanDown Q d0 i1 (b - 1)"
  have i1: "a + 1 \<le> i1" unfolding i1_def by (rule scanUp_ge)
  have j1: "j1 \<le> b - 1" unfolding j1_def by (rule scanDown_le)
  have j1': "a \<le> j1" unfolding j1_def using assms(1) i1 by (intro scanDown_ge) auto
  show ?thesis
  proof (cases "i1 > j1")
    case True
    then have "mid = j1"
      using assms(2) by (simp add: partition_func_def Let_def d0_def P_def Q_def i1_def j1_def)
    then show ?thesis using j1 j1' assms(1) by simp
  next
    case False
    obtain d2 i2 j2 where pl: "partitionLoop P Q (Swap d0 i1 j1) (i1 + 1) (j1 - 1) = (d2, i2, j2)"
      by (cases "partitionLoop P Q (Swap d0 i1 j1) (i1 + 1) (j1 - 1)")
    have "mid = j2"
      using assms(2) False pl
      by (simp add: partition_func_def Let_def d0_def P_def Q_def i1_def j1_def)
    moreover have "j2 \<le> j1 - 1"
      using partitionLoop_bounds [OF pl] by blast
    moreover have "a \<le> j2"
    proof -
      have "a \<le> j1 - 1" "a < i1 + 1" using False i1 by linarith+
      then show ?thesis using partitionLoop_bounds [OF pl] by blast
    qed
    ultimately show ?thesis using j1 assms(1) by linarith
  qed
qed

lemma partitionEqual_func_mid:
  assumes "a < b" and "partitionEqual_func lessf data a b pivot = (d, mid)"
  shows "a < mid \<and> mid \<le> b"
proof -
  obtain d2 i2 j2 where pl: "partitionLoop (\<lambda>d i. \<not> lessf (d ! a) (d ! i))
      (\<lambda>d j. lessf (d ! a) (d ! j)) (Swap data a pivot) (a + 1) (b - 1) = (d2, i2, j2)"
    by (cases "partitionLoop (\<lambda>d i. \<not> lessf (d ! a) (d ! i))
      (\<lambda>d j. lessf (d ! a) (d ! j)) (Swap data a pivot) (a + 1) (b - 1)")
  have "mid = i2" using assms(2) pl by (simp add: partitionEqual_func_def Let_def)
  moreover have "a + 1 \<le> i2"
    using partitionLoop_bounds [OF pl] by blast
  moreover have "i2 \<le> b"
  proof -
    have "a + 1 \<le> b" "b - 1 < b" using assms(1) by linarith+
    then show ?thesis using partitionLoop_bounds [OF pl] by blast
  qed
  ultimately show ?thesis by linarith
qed


text \<open>
  \<^verbatim>\<open>partialInsertionSort_func\<close>: the scan over the sorted prefix, the two shifting
  loops (the left one runs down to index 1, as in the source) and the outer loop of
  at most \<^verbatim>\<open>maxSteps = 5\<close> rounds. The result is the slice and the returned flag.
\<close>

function skipSorted :: "('a \<Rightarrow> 'a \<Rightarrow> bool) \<Rightarrow> 'a list \<Rightarrow> nat \<Rightarrow> nat \<Rightarrow> nat" where
  "skipSorted lessf data b i =
     (if i < b \<and> \<not> lessf (data ! i) (data ! (i - 1)) then skipSorted lessf data b (i + 1) else i)"
  by pat_completeness auto
termination
  by (relation "measure (\<lambda>(lessf, data, b, i). b - i)") auto

declare skipSorted.simps [simp del]

fun shiftLeft :: "('a \<Rightarrow> 'a \<Rightarrow> bool) \<Rightarrow> 'a list \<Rightarrow> nat \<Rightarrow> 'a list" where
  "shiftLeft lessf data 0 = data"
| "shiftLeft lessf data (Suc j) =
     (if \<not> lessf (data ! Suc j) (data ! j) then data
      else shiftLeft lessf (Swap data (Suc j) j) j)"

function shiftRight :: "('a \<Rightarrow> 'a \<Rightarrow> bool) \<Rightarrow> 'a list \<Rightarrow> nat \<Rightarrow> nat \<Rightarrow> 'a list" where
  "shiftRight lessf data b j =
     (if j < b then
        (if \<not> lessf (data ! j) (data ! (j - 1)) then data
         else shiftRight lessf (Swap data j (j - 1)) b (j + 1))
      else data)"
  by pat_completeness auto
termination
  by (relation "measure (\<lambda>(lessf, data, b, j). b - j)") auto

declare shiftRight.simps [simp del]

fun partialInsertionSort_loop ::
  "('a \<Rightarrow> 'a \<Rightarrow> bool) \<Rightarrow> 'a list \<Rightarrow> nat \<Rightarrow> nat \<Rightarrow> nat \<Rightarrow> nat \<Rightarrow> 'a list \<times> bool" where
  "partialInsertionSort_loop lessf data a b i 0 = (data, False)"
| "partialInsertionSort_loop lessf data a b i (Suc steps) =
     (let i = skipSorted lessf data b i in
      if i = b then (data, True)
      else if b - a < 50 then (data, False)
      else
        (let data = Swap data i (i - 1);
             data = (if i - a \<ge> 2 then shiftLeft lessf data (i - 1) else data);
             data = (if b - i \<ge> 2 then shiftRight lessf data b (i + 1) else data)
         in partialInsertionSort_loop lessf data a b i steps))"

definition partialInsertionSort_func ::
  "('a \<Rightarrow> 'a \<Rightarrow> bool) \<Rightarrow> 'a list \<Rightarrow> nat \<Rightarrow> nat \<Rightarrow> 'a list \<times> bool" where
  "partialInsertionSort_func lessf data a b = partialInsertionSort_loop lessf data a b (a + 1) 5"

text \<open>
  \<^verbatim>\<open>breakPatterns_func\<close>. The pseudo-random generator (\<^verbatim>\<open>xorshift.Next\<close>) is the
  parameter \<open>nxt\<close>; \<open>shift\<close> is \<^verbatim>\<open>bits.Len(uint(length))\<close>, and masking with
  \<^verbatim>\<open>modulus - 1\<close>, where \<^verbatim>\<open>modulus = 1 << shift\<close>, keeps the low \<open>shift\<close> bits.
\<close>

fun breakPatterns_loop ::
  "(64 word \<Rightarrow> 64 word) \<Rightarrow> 'a list \<Rightarrow> nat \<Rightarrow> nat \<Rightarrow> nat \<Rightarrow> nat \<Rightarrow> 64 word \<Rightarrow> nat \<Rightarrow> nat \<Rightarrow> 'a list" where
  "breakPatterns_loop nxt data a len shift idx random i 0 = data"
| "breakPatterns_loop nxt data a len shift idx random i (Suc n) =
     (let random = nxt random;
          other = take_bit shift (unat random);
          other = (if other \<ge> len then other - len else other)
      in breakPatterns_loop nxt (Swap data (idx - 1 + i) (a + other)) a len shift idx random
           (i + 1) n)"

definition breakPatterns_func ::
  "(64 word \<Rightarrow> 64 word) \<Rightarrow> 'a list \<Rightarrow> nat \<Rightarrow> nat \<Rightarrow> 'a list" where
  "breakPatterns_func nxt data a b =
     (let len = b - a in
      if len \<ge> 8 then
        (let random = (word_of_nat len :: 64 word);
             shift = bitsLen len;
             idx = a + (len div 4) * 2 - 1
         in breakPatterns_loop nxt data a len shift idx random 0 3)
      else data)"

text \<open>\<^verbatim>\<open>choosePivot_func\<close> with \<^verbatim>\<open>order2_func\<close>, \<^verbatim>\<open>median_func\<close> and
  \<^verbatim>\<open>medianAdjacent_func\<close>; the swap counter is threaded through.\<close>

datatype sortedHint = unknownHint | increasingHint | decreasingHint

definition order2_func ::
  "('a \<Rightarrow> 'a \<Rightarrow> bool) \<Rightarrow> 'a list \<Rightarrow> nat \<Rightarrow> nat \<Rightarrow> nat \<Rightarrow> nat \<times> nat \<times> nat" where
  "order2_func lessf data a b swaps =
     (if lessf (data ! b) (data ! a) then (b, a, swaps + 1) else (a, b, swaps))"

definition median_func ::
  "('a \<Rightarrow> 'a \<Rightarrow> bool) \<Rightarrow> 'a list \<Rightarrow> nat \<Rightarrow> nat \<Rightarrow> nat \<Rightarrow> nat \<Rightarrow> nat \<times> nat" where
  "median_func lessf data a b c swaps =
     (let (a, b, swaps) = order2_func lessf data a b swaps;
          (b, c, swaps) = order2_func lessf data b c swaps;
          (a, b, swaps) = order2_func lessf data a b swaps
      in (b, swaps))"

definition medianAdjacent_func ::
  "('a \<Rightarrow> 'a \<Rightarrow> bool) \<Rightarrow> 'a list \<Rightarrow> nat \<Rightarrow> nat \<Rightarrow> nat \<times> nat" where
  "medianAdjacent_func lessf data a swaps = median_func lessf data (a - 1) a (a + 1) swaps"

definition choosePivot_func ::
  "('a \<Rightarrow> 'a \<Rightarrow> bool) \<Rightarrow> 'a list \<Rightarrow> nat \<Rightarrow> nat \<Rightarrow> nat \<times> sortedHint" where
  "choosePivot_func lessf data a b =
     (let l = b - a;
          swaps = 0;
          i = a + l div 4 * 1;
          j = a + l div 4 * 2;
          k = a + l div 4 * 3;
          (j, swaps) =
            (if l \<ge> 8 then
               (let (i, j, k, swaps) =
                      (if l \<ge> 50 then
                         (let (i, swaps) = medianAdjacent_func lessf data i swaps;
                              (j, swaps) = medianAdjacent_func lessf data j swaps;
                              (k, swaps) = medianAdjacent_func lessf data k swaps
                          in (i, j, k, swaps))
                       else (i, j, k, swaps))
                in median_func lessf data i j k swaps)
             else (j, swaps))
      in if swaps = 0 then (j, increasingHint)
         else if swaps = 4 * 3 then (j, decreasingHint)
         else (j, unknownHint))"

function reverseRange_loop :: "'a list \<Rightarrow> nat \<Rightarrow> nat \<Rightarrow> 'a list" where
  "reverseRange_loop data i j =
     (if i < j then reverseRange_loop (Swap data i j) (i + 1) (j - 1) else data)"
  by pat_completeness auto
termination
  by (relation "measure (\<lambda>(data, i, j). j - i)") auto

declare reverseRange_loop.simps [simp del]

definition reverseRange_func :: "'a list \<Rightarrow> nat \<Rightarrow> nat \<Rightarrow> 'a list" where
  "reverseRange_func data a b = reverseRange_loop data a (b - 1)"

text \<open>
  \<^verbatim>\<open>pdqsort_func\<close>: the \<^verbatim>\<open>for\<close> loop with its state (\<open>a\<close>, \<open>b\<close>, \<open>limit\<close>,
  \<open>wasBalanced\<close>, \<open>wasPartitioned\<close>) as arguments; the recursive call on the shorter
  side starts with both flags true.
\<close>

lemma partitionEqual_func_mid_term:
  assumes "(d, mid) = partitionEqual_func lessf data a b pivot" and "\<not> b - a \<le> 12"
  shows "b - mid < b - a"
proof -
  have ab: "a < b" using assms(2) by linarith
  have "a < mid \<and> mid \<le> b"
    using partitionEqual_func_mid [OF ab assms(1) [symmetric]] .
  then show ?thesis by linarith
qed

lemma partition_func_mid_term:
  assumes "(d, mid, ap) = partition_func lessf data a b pivot" and "\<not> b - a \<le> 12"
  shows "mid - a < b - a \<and> b - Suc mid < b - a"
proof -
  have ab: "a < b" using assms(2) by linarith
  have "a \<le> mid \<and> mid < b"
    using partition_func_mid [OF ab assms(1) [symmetric]] .
  then show ?thesis by linarith
qed

lemma partition_func_mid_term2:
  assumes "(d, y) = partition_func lessf data a b pivot" and "(mid, ap) = y"
    and "\<not> b - a \<le> 12"
  shows "mid - a < b - a \<and> b - Suc mid < b - a"
  using partition_func_mid_term [of d mid ap lessf data a b pivot] assms by simp

function pdqsort_loop ::
  "(64 word \<Rightarrow> 64 word) \<Rightarrow> ('a \<Rightarrow> 'a \<Rightarrow> bool) \<Rightarrow> 'a list \<Rightarrow> nat \<Rightarrow> nat \<Rightarrow> nat \<Rightarrow> bool \<Rightarrow> bool
   \<Rightarrow> 'a list" where
  "pdqsort_loop nxt lessf data a b limit wasBalanced wasPartitioned =
     (let len = b - a in
      if len \<le> 12 then insertionSort_func lessf data a b
      else if limit = 0 then heapSort_func lessf data a b
      else
        (let (data1, limit1) =
               (if \<not> wasBalanced then (breakPatterns_func nxt data a b, limit - 1)
                else (data, limit));
             (pivot0, hint0) = choosePivot_func lessf data1 a b;
             (data2, pivot, hint) =
               (if hint0 = decreasingHint
                then (reverseRange_func data1 a b, (b - 1) - (pivot0 - a), increasingHint)
                else (data1, pivot0, hint0));
             (data3, isSorted) =
               (if wasBalanced \<and> wasPartitioned \<and> hint = increasingHint
                then partialInsertionSort_func lessf data2 a b
                else (data2, False))
         in if isSorted then data3
            else if a > 0 \<and> \<not> lessf (data3 ! (a - 1)) (data3 ! pivot) then
              (let (data4, mid) = partitionEqual_func lessf data3 a b pivot
               in pdqsort_loop nxt lessf data4 mid b limit1 wasBalanced wasPartitioned)
            else
              (let (data4, mid, alreadyPartitioned) = partition_func lessf data3 a b pivot;
                   leftLen = mid - a;
                   rightLen = b - mid;
                   balanceThreshold = len div 8
               in if leftLen < rightLen then
                    pdqsort_loop nxt lessf
                      (pdqsort_loop nxt lessf data4 a mid limit1 True True)
                      (mid + 1) b limit1 (leftLen \<ge> balanceThreshold) alreadyPartitioned
                  else
                    pdqsort_loop nxt lessf
                      (pdqsort_loop nxt lessf data4 (mid + 1) b limit1 True True)
                      a mid limit1 (rightLen \<ge> balanceThreshold) alreadyPartitioned)))"
  by pat_completeness auto
termination
  apply (relation "measure (\<lambda>(nxt, lessf, data, a, b, limit, wb, wp). b - a)")
       apply simp
      apply (simp, drule partitionEqual_func_mid_term, simp, simp)
     apply (simp, drule (1) partition_func_mid_term2, simp, simp)
    apply (simp, drule (1) partition_func_mid_term2, simp, simp)
   apply (simp, drule (1) partition_func_mid_term2, simp, simp)
  apply (simp, drule (1) partition_func_mid_term2, simp, simp)
  done

declare pdqsort_loop.simps [simp del]

definition pdqsort_func ::
  "(64 word \<Rightarrow> 64 word) \<Rightarrow> ('a \<Rightarrow> 'a \<Rightarrow> bool) \<Rightarrow> 'a list \<Rightarrow> nat \<Rightarrow> nat \<Rightarrow> nat \<Rightarrow> 'a list" where
  "pdqsort_func nxt lessf data a b limit = pdqsort_loop nxt lessf data a b limit True True"

definition sort_Slice :: "(64 word \<Rightarrow> 64 word) \<Rightarrow> ('a \<Rightarrow> 'a \<Rightarrow> bool) \<Rightarrow> 'a list \<Rightarrow> 'a list" where
  "sort_Slice nxt lessf x =
     (let len = length x; limit = bitsLen len
      in pdqsort_func nxt lessf x 0 len limit)"

text \<open>The generator of package sort: xorshift on 64 bits.\<close>

definition xorshift_Next :: "64 word \<Rightarrow> 64 word" where
  "xorshift_Next r =
     (let r = r XOR push_bit 13 r;
          r = r XOR drop_bit 7 r;
          r = r XOR push_bit 17 r
      in r)"

subsection \<open>Vocabulary for the properties of the sort\<close>

text \<open>\<open>ys\<close> is a rearrangement of \<open>xs\<close> that leaves every position outside \<open>[a, b)\<close> alone.\<close>

definition perm_in :: "nat \<Rightarrow> nat \<Rightarrow> 'a list \<Rightarrow> 'a list \<Rightarrow> bool" where
  "perm_in a b xs ys \<longleftrightarrow>
     length ys = length xs \<and> mset ys = mset xs \<and>
     (\<forall>k < length xs. k < a \<or> b \<le> k \<longrightarrow> ys ! k = xs ! k)"

text \<open>The keys \<open>f\<close> of positions \<open>[a, b)\<close> are in non-decreasing order.\<close>

definition sorted_in :: "('a \<Rightarrow> 'k::linorder) \<Rightarrow> nat \<Rightarrow> nat \<Rightarrow> 'a list \<Rightarrow> bool" where
  "sorted_in f a b xs \<longleftrightarrow> (\<forall>i j. a \<le> i \<and> i < j \<and> j < b \<longrightarrow> f (xs ! i) \<le> f (xs ! j))"

text \<open>A comparison function that compares a key: \<^verbatim>\<open>less(i, j)\<close> is \<open>f (data ! i) < f (data ! j)\<close>.\<close>

definition keyLess :: "('a \<Rightarrow> 'k::linorder) \<Rightarrow> 'a \<Rightarrow> 'a \<Rightarrow> bool" where
  "keyLess f x y \<longleftrightarrow> f x < f y"

text \<open>Position \<open>a - 1\<close>, when there is one, holds a key no larger than any of \<open>[a, b)\<close>:
  what \<^verbatim>\<open>pdqsort_func\<close> relies on when it continues to the right of a pivot.\<close>

definition lower_bounded :: "('a \<Rightarrow> 'k::linorder) \<Rightarrow> nat \<Rightarrow> nat \<Rightarrow> 'a list \<Rightarrow> bool" where
  "lower_bounded f a b xs \<longleftrightarrow>
     (0 < a \<longrightarrow> (\<forall>k. a \<le> k \<and> k < b \<longrightarrow> f (xs ! (a - 1)) \<le> f (xs ! k)))"

text \<open>The max-heap condition of \<^verbatim>\<open>heapSort_func\<close> on the nodes from \<open>i\<close> on, of a heap of
  \<open>hi\<close> elements stored from index \<open>first\<close>.\<close>

definition heap_at :: "('a \<Rightarrow> 'k::linorder) \<Rightarrow> 'a list \<Rightarrow> nat \<Rightarrow> nat \<Rightarrow> nat \<Rightarrow> bool" where
  "heap_at f xs first hi i \<longleftrightarrow>
     (2 * i + 1 < hi \<longrightarrow> f (xs ! (first + (2 * i + 1))) \<le> f (xs ! (first + i))) \<and>
     (2 * i + 2 < hi \<longrightarrow> f (xs ! (first + (2 * i + 2))) \<le> f (xs ! (first + i)))"

section \<open>find-models: filter engine and simple scoring policy\<close>

record modelMatch =
  model :: Model
  provider :: Provider
  score :: real

text \<open>
  \<^verbatim>\<open>filterModels\<close>: the loop over \<open>models\<close>, one \<^verbatim>\<open>continue\<close> per failed
  predicate, \<^verbatim>\<open>append\<close> for a survivor.
\<close>

fun filterLoop ::
  "modelMatch list \<Rightarrow> real \<Rightarrow> int \<Rightarrow> bool \<Rightarrow> bool \<Rightarrow> modelMatch list \<Rightarrow> modelMatch list" where
  "filterLoop [] maxCost minContext reasoning vision filtered = filtered"
| "filterLoop (mm # rest) maxCost minContext reasoning vision filtered =
     (if maxCost > 0 \<and> CostPer1MIn (model mm) > maxCost
        then filterLoop rest maxCost minContext reasoning vision filtered
      else if minContext > 0 \<and> ContextWindow (model mm) < minContext
        then filterLoop rest maxCost minContext reasoning vision filtered
      else if reasoning \<and> \<not> CanReason (model mm)
        then filterLoop rest maxCost minContext reasoning vision filtered
      else if vision \<and> \<not> SupportsImages (model mm)
        then filterLoop rest maxCost minContext reasoning vision filtered
      else filterLoop rest maxCost minContext reasoning vision (filtered @ [mm]))"

definition filterModels ::
  "modelMatch list \<Rightarrow> real \<Rightarrow> int \<Rightarrow> bool \<Rightarrow> bool \<Rightarrow> modelMatch list" where
  "filterModels models maxCost minContext reasoning vision =
     filterLoop models maxCost minContext reasoning vision []"

text \<open>
  The constraints as the specification words them: each predicate is skipped when
  its constraint is inactive, and the active ones are AND-combined.
\<close>

definition satisfiesConstraints :: "real \<Rightarrow> int \<Rightarrow> bool \<Rightarrow> bool \<Rightarrow> modelMatch \<Rightarrow> bool" where
  "satisfiesConstraints budget minimum reasoning vision mm =
     ((budget \<le> 0 \<or> CostPer1MIn (model mm) \<le> budget) \<and>
      (minimum \<le> 0 \<or> ContextWindow (model mm) \<ge> minimum) \<and>
      (\<not> reasoning \<or> CanReason (model mm)) \<and>
      (\<not> vision \<or> SupportsImages (model mm)))"

text \<open>The body of the scoring loop of \<^verbatim>\<open>scoreModels\<close> for one candidate.\<close>

definition simpleScore :: "Model \<Rightarrow> real" where
  "simpleScore m =
     (let score = 100;
          score = (if CostPer1MIn m > 0 then score - min (CostPer1MIn m / 10) 50 else score);
          score = (if ContextWindow m \<ge> 200000 then score + 20
                   else if ContextWindow m \<ge> 100000 then score + 10 else score);
          score = (if CanReason m then score + 15 else score);
          score = (if SupportsImages m then score + 10 else score)
      in score)"


text \<open>
  \<^verbatim>\<open>scoreModels\<close>: the scoring loop writes each candidate's score, then
  \<^verbatim>\<open>sort.Slice\<close> orders the slice with \<^verbatim>\<open>models[i].score > models[j].score\<close>.
\<close>

definition scoreModels :: "(64 word \<Rightarrow> 64 word) \<Rightarrow> modelMatch list \<Rightarrow> modelMatch list" where
  "scoreModels nxt models =
     sort_Slice nxt (\<lambda>x y. score x > score y)
       (map (\<lambda>mm. mm\<lparr>score := simpleScore (model mm)\<rparr>) models)"

section \<open>model-selector: requirement wizard\<close>

record requirements =
  budget :: real
  contextSize :: int
  reasoning :: bool
  vision :: bool

record modelScore =
  ms_model :: Model
  ms_provider :: Provider
  ms_score :: real
  reasons :: "string list"

datatype step = stepBudget | stepContext | stepReasoning | stepVision | stepResults

text \<open>The values of the \<^verbatim>\<open>iota\<close> constants.\<close>

fun stepIndex :: "step \<Rightarrow> nat" where
  "stepIndex stepBudget = 0"
| "stepIndex stepContext = 1"
| "stepIndex stepReasoning = 2"
| "stepIndex stepVision = 3"
| "stepIndex stepResults = 4"

text \<open>
  The list widget of package bubbles is external. The model keeps its items and the
  index that \<^verbatim>\<open>Index()\<close> returns; a new list starts at index 0, and what a key
  message does to a list (\<^verbatim>\<open>list.Update\<close>) is a parameter. A result line
  (\<^verbatim>\<open>fmt.Sprintf("%s (%s) - Score: %.0f", ...)\<close>) is kept as its three arguments.
\<close>

datatype listItem = Label string | ResultLine string string real

record bubblesList =
  items :: "listItem list"
  index :: nat

definition newList :: "listItem list \<Rightarrow> bubblesList" where
  "newList its = \<lparr> items = its, index = 0 \<rparr>"

record wizard =
  allModels :: "modelScore list"
  step :: step
  requirements :: requirements
  list :: bubblesList
  choices :: "string list"

definition initialModel :: "modelScore list \<Rightarrow> wizard" where
  "initialModel all =
     \<lparr> allModels = all, step = stepBudget,
       requirements = \<lparr> budget = 0, contextSize = 0, reasoning = False, vision = False \<rparr>,
       list = newList [Label ''No budget limit'', Label ''Under $0.50 per 1M tokens'',
                       Label ''Under $1.00 per 1M tokens'', Label ''Under $5.00 per 1M tokens'',
                       Label ''Under $10.00 per 1M tokens'', Label ''Any cost''],
       choices = [''0'', ''0.5'', ''1.0'', ''5.0'', ''10.0'', ''1000''] \<rparr>"

definition setupContextList :: "wizard \<Rightarrow> wizard" where
  "setupContextList m =
     m\<lparr> list := newList [Label ''Any context size'', Label ''At least 32K tokens'',
                         Label ''At least 100K tokens'', Label ''At least 200K tokens'',
                         Label ''At least 400K tokens''],
        choices := [''0'', ''32000'', ''100000'', ''200000'', ''400000''] \<rparr>"

definition setupReasoningList :: "wizard \<Rightarrow> wizard" where
  "setupReasoningList m =
     m\<lparr> list := newList [Label ''Yes, I need reasoning capabilities'',
                         Label ''No, reasoning not required''],
        choices := [''yes'', ''no''] \<rparr>"

definition setupVisionList :: "wizard \<Rightarrow> wizard" where
  "setupVisionList m =
     m\<lparr> list := newList [Label ''Yes, I need vision/multimodal'',
                         Label ''No, text-only is fine''],
        choices := [''yes'', ''no''] \<rparr>"

text \<open>
  The body of the scoring loop of \<^verbatim>\<open>calculateScores\<close> for one model: the score
  and the reasons after the four blocks.
\<close>

definition requirementScore :: "requirements \<Rightarrow> Model \<Rightarrow> real \<times> string list" where
  "requirementScore req m =
     (let sc = 100; rs = [];
          (sc, rs) =
            (if budget req > 0 \<and> CostPer1MIn m > budget req
               then (sc - 100, rs @ [''Over budget''])
             else if CostPer1MIn m \<le> budget req / 2
               then (sc + 30, rs @ [''Well under budget''])
             else (sc, rs));
          (sc, rs) =
            (if ContextWindow m \<ge> contextSize req
               then (sc + 20, rs @ [''Meets context requirement''])
             else if ContextWindow m < contextSize req
               then (sc - 50, rs @ [''Below context requirement''])
             else (sc, rs));
          (sc, rs) =
            (if reasoning req then
               (if CanReason m then (sc + 25, rs @ [''Has reasoning''])
                else (sc - 50, rs @ [''No reasoning'']))
             else (sc, rs));
          (sc, rs) =
            (if vision req then
               (if SupportsImages m then (sc + 25, rs @ [''Has vision''])
                else (sc - 50, rs @ [''No vision'']))
             else (sc, rs))
      in (sc, rs))"

definition scoreOne :: "requirements \<Rightarrow> modelScore \<Rightarrow> modelScore" where
  "scoreOne req mm =
     (let (sc, rs) = requirementScore req (ms_model mm)
      in mm\<lparr>ms_score := sc, reasons := rs\<rparr>)"

definition calculateScores :: "(64 word \<Rightarrow> 64 word) \<Rightarrow> wizard \<Rightarrow> wizard" where
  "calculateScores nxt m =
     m\<lparr>allModels :=
         sort_Slice nxt (\<lambda>x y. ms_score x > ms_score y)
           (map (scoreOne (requirements m)) (allModels m))\<rparr>"

definition setupResultsList :: "wizard \<Rightarrow> wizard" where
  "setupResultsList m =
     m\<lparr> list := newList
           (map (\<lambda>mm. ResultLine (Name (ms_model mm)) (ProviderName (ms_provider mm))
                        (ms_score mm))
              (take (min 5 (length (allModels m))) (allModels m))) \<rparr>"

definition parseBudget :: "string \<Rightarrow> real \<times> bool" where
  "parseBudget s =
     (if s = ''0'' then (0, True)
      else if s = ''0.5'' then (0.5, True)
      else if s = ''1.0'' then (1.0, True)
      else if s = ''5.0'' then (5.0, True)
      else if s = ''10.0'' then (10.0, True)
      else if s = ''1000'' then (1000, True)
      else (0, False))"

definition parseContext :: "string \<Rightarrow> int \<times> bool" where
  "parseContext s =
     (if s = ''0'' then (0, True)
      else if s = ''32000'' then (32000, True)
      else if s = ''100000'' then (100000, True)
      else if s = ''200000'' then (200000, True)
      else if s = ''400000'' then (400000, True)
      else (0, False))"

text \<open>
  \<^verbatim>\<open>handleEnter\<close>. \<^verbatim>\<open>m.choices[selected]\<close> panics when the index is out of range;
  the command returned is \<^verbatim>\<open>nil\<close> or \<^verbatim>\<open>tea.Quit\<close>. The second component of a
  parse result (the error, \<open>True\<close> for \<^verbatim>\<open>nil\<close>) is dropped, as in the source.
\<close>

datatype panic = IndexOutOfRange

datatype cmd = NoCmd | Quit

definition handleEnter :: "(64 word \<Rightarrow> 64 word) \<Rightarrow> wizard \<Rightarrow> panic + (wizard \<times> cmd)" where
  "handleEnter nxt m =
     (let selected = index (list m) in
      if selected \<ge> length (choices m) then Inl IndexOutOfRange
      else
        (let choice = choices m ! selected in
         case step m of
           stepBudget \<Rightarrow>
             Inr (setupContextList
                    (m\<lparr>requirements := (requirements m)\<lparr>budget := fst (parseBudget choice)\<rparr>,
                       step := stepContext\<rparr>), NoCmd)
         | stepContext \<Rightarrow>
             Inr (setupReasoningList
                    (m\<lparr>requirements :=
                         (requirements m)\<lparr>contextSize := fst (parseContext choice)\<rparr>,
                       step := stepReasoning\<rparr>), NoCmd)
         | stepReasoning \<Rightarrow>
             Inr (setupVisionList
                    (m\<lparr>requirements := (requirements m)\<lparr>reasoning := (choice = ''yes'')\<rparr>,
                       step := stepVision\<rparr>), NoCmd)
         | stepVision \<Rightarrow>
             Inr (setupResultsList
                    (calculateScores nxt
                       (m\<lparr>requirements := (requirements m)\<lparr>vision := (choice = ''yes'')\<rparr>,
                          step := stepResults\<rparr>)), NoCmd)
         | stepResults \<Rightarrow> Inr (m, Quit)))"

text \<open>
  \<^verbatim>\<open>Update\<close>: the key messages it distinguishes, every other message, and the
  program loop of the runtime, which feeds the messages to \<^verbatim>\<open>Update\<close> one at a time
  and stops at \<^verbatim>\<open>tea.Quit\<close> or at a panic. \<open>runWizard\<close> returns the states the
  session goes through, the first one included.
\<close>

datatype msg = KeyCtrlC | KeyEsc | KeyEnter | KeyUp | KeyDown | OtherMsg

definition Update ::
  "(64 word \<Rightarrow> 64 word) \<Rightarrow> (msg \<Rightarrow> bubblesList \<Rightarrow> bubblesList) \<Rightarrow> msg \<Rightarrow> wizard
   \<Rightarrow> panic + (wizard \<times> cmd)" where
  "Update nxt listUpdate ms m =
     (case ms of
        KeyCtrlC \<Rightarrow> Inr (m, Quit)
      | KeyEsc \<Rightarrow> Inr (m, Quit)
      | KeyEnter \<Rightarrow> handleEnter nxt m
      | KeyUp \<Rightarrow> Inr (m\<lparr>list := listUpdate ms (list m)\<rparr>, NoCmd)
      | KeyDown \<Rightarrow> Inr (m\<lparr>list := listUpdate ms (list m)\<rparr>, NoCmd)
      | OtherMsg \<Rightarrow> Inr (m, NoCmd))"

fun runWizard ::
  "(64 word \<Rightarrow> 64 word) \<Rightarrow> (msg \<Rightarrow> bubblesList \<Rightarrow> bubblesList) \<Rightarrow> msg list \<Rightarrow> wizard
   \<Rightarrow> wizard list" where
  "runWizard nxt listUpdate [] m = [m]"
| "runWizard nxt listUpdate (e # es) m =
     (case Update nxt listUpdate e m of
        Inl p \<Rightarrow> [m]
      | Inr (m', c) \<Rightarrow> (if c = Quit then [m] else m # runWizard nxt listUpdate es m'))"

text \<open>
  The requirement-weighted policy as the specification words it: base 100 and one
  term per rule, each with the label it appends. The labels are the strings of the
  source.
\<close>

definition budgetRule :: "requirements \<Rightarrow> Model \<Rightarrow> real \<times> string list" where
  "budgetRule req m =
     (if budget req > 0 \<and> CostPer1MIn m > budget req then (- 100, [''Over budget''])
      else if CostPer1MIn m \<le> budget req / 2 then (30, [''Well under budget''])
      else (0, []))"

definition contextRule :: "requirements \<Rightarrow> Model \<Rightarrow> real \<times> string list" where
  "contextRule req m =
     (if ContextWindow m \<ge> contextSize req then (20, [''Meets context requirement''])
      else (- 50, [''Below context requirement'']))"

definition reasoningRule :: "requirements \<Rightarrow> Model \<Rightarrow> real \<times> string list" where
  "reasoningRule req m =
     (if reasoning req then (if CanReason m then (25, [''Has reasoning''])
                             else (- 50, [''No reasoning'']))
      else (0, []))"

definition visionRule :: "requirements \<Rightarrow> Model \<Rightarrow> real \<times> string list" where
  "visionRule req m =
     (if vision req then (if SupportsImages m then (25, [''Has vision''])
                          else (- 50, [''No vision'']))
      else (0, []))"

definition weightedPolicy :: "requirements \<Rightarrow> Model \<Rightarrow> real \<times> string list" where
  "weightedPolicy req m =
     (100 + fst (budgetRule req m) + fst (contextRule req m) + fst (reasoningRule req m) +
        fst (visionRule req m),
      snd (budgetRule req m) @ snd (contextRule req m) @ snd (reasoningRule req m) @
        snd (visionRule req m))"

section \<open>cost-calculator: cost estimator and batch mode\<close>

record costResult =
  cr_Model :: string
  cr_Provider :: string
  InputCost :: real
  OutputCost :: real
  TotalCost :: real

record scenario =
  sc_Model :: string
  InputTokens :: int
  OutputTokens :: int
  CachedRatio :: real

text \<open>
  The lookup loops of \<^verbatim>\<open>calculateCost\<close>: providers in catalog order, models in
  list order, the first match wins (\<^verbatim>\<open>break\<close> out of both loops).
\<close>

fun findInModels :: "strings_pkg \<Rightarrow> Model list \<Rightarrow> string \<Rightarrow> Model option" where
  "findInModels lib [] modelName = None"
| "findInModels lib (m # ms) modelName =
     (if EqualFold lib (ID m) modelName \<or>
         Contains (ToLower lib (Name m)) (ToLower lib modelName)
      then Some m else findInModels lib ms modelName)"

fun findModel :: "strings_pkg \<Rightarrow> Provider list \<Rightarrow> string \<Rightarrow> (Model \<times> Provider) option" where
  "findModel lib [] modelName = None"
| "findModel lib (p # ps) modelName =
     (case findInModels lib (Models p) modelName of
        Some m \<Rightarrow> Some (m, p)
      | None \<Rightarrow> findModel lib ps modelName)"

text \<open>\<^verbatim>\<open>calculateCost\<close>: \<open>None\<close> is the \<^verbatim>\<open>nil\<close> result of a failed lookup.\<close>

definition calculateCost ::
  "strings_pkg \<Rightarrow> Provider list \<Rightarrow> string \<Rightarrow> int \<Rightarrow> int \<Rightarrow> real \<Rightarrow> costResult option" where
  "calculateCost lib providers modelName inputTokens outputTokens cachedRatio =
     (case findModel lib providers modelName of
        None \<Rightarrow> None
      | Some (m, p) \<Rightarrow>
          (let cachedInputTokens = real_of_int inputTokens * cachedRatio;
               uncachedInputTokens = real_of_int inputTokens * (1 - cachedRatio);
               inputCost = (uncachedInputTokens * CostPer1MIn m / 1000000) +
                           (cachedInputTokens * CostPer1MInCached m / 1000000);
               outputCost = real_of_int outputTokens * CostPer1MOut m / 1000000
           in Some \<lparr> cr_Model = Name m, cr_Provider = ProviderName p,
                     InputCost = inputCost, OutputCost = outputCost,
                     TotalCost = inputCost + outputCost \<rparr>))"

text \<open>
  \<^verbatim>\<open>processBatch\<close> after the batch file has been read and parsed (both fatal on
  failure, outside the model): the loop over the scenarios, then either the
  message "No valid scenarios found." or the results handed to
  \<^verbatim>\<open>displayCostResult\<close>.
\<close>

abbreviation scenarioCost :: "strings_pkg \<Rightarrow> Provider list \<Rightarrow> scenario \<Rightarrow> costResult option" where
  "scenarioCost lib providers s \<equiv>
     calculateCost lib providers (sc_Model s) (InputTokens s) (OutputTokens s) (CachedRatio s)"

fun batchLoop ::
  "strings_pkg \<Rightarrow> Provider list \<Rightarrow> scenario list \<Rightarrow> costResult list \<Rightarrow> costResult list" where
  "batchLoop lib providers [] results = results"
| "batchLoop lib providers (s # ss) results =
     (case scenarioCost lib providers s of
        Some result \<Rightarrow> batchLoop lib providers ss (results @ [result])
      | None \<Rightarrow> batchLoop lib providers ss results)"

datatype batch_output = NoValidScenarios | Displayed "costResult list"

definition processBatch :: "strings_pkg \<Rightarrow> Provider list \<Rightarrow> scenario list \<Rightarrow> batch_output" where
  "processBatch lib providers scenarios =
     (let results = batchLoop lib providers scenarios []
      in if length results = 0 then NoValidScenarios else Displayed results)"


section \<open>chat-bot: session tracker\<close>

text \<open>
  The message roles of package go-openai are the strings \<^verbatim>\<open>"system"\<close>,
  \<^verbatim>\<open>"user"\<close> and \<^verbatim>\<open>"assistant"\<close>.
\<close>

definition ChatMessageRoleSystem :: string where "ChatMessageRoleSystem = ''system''"
definition ChatMessageRoleUser :: string where "ChatMessageRoleUser = ''user''"
definition ChatMessageRoleAssistant :: string where "ChatMessageRoleAssistant = ''assistant''"

record ChatCompletionMessage =
  Role :: string
  Content :: string

record chatSession =
  cs_model :: Model
  messages :: "ChatCompletionMessage list"
  totalTokens :: int
  totalCost :: real

record ChatCompletionRequest =
  req_Model :: string
  req_Messages :: "ChatCompletionMessage list"
  req_MaxTokens :: int

text \<open>
  What the program reads of a completion response: the contents of the choices and
  the usage counts. The completion call itself is external: its outcome is an
  error message or a response.
\<close>

record ChatCompletionResponse =
  Choices :: "string list"
  PromptTokens :: int
  CompletionTokens :: int

type_synonym completion_call = "ChatCompletionRequest \<Rightarrow> string + ChatCompletionResponse"

record apiResponse =
  content :: string
  inputTokens :: int
  outputTokens :: int
  cost :: real

text \<open>\<^verbatim>\<open>calculateCost\<close> of the chat bot (two prices, no caching).\<close>

definition chatCalculateCost :: "Model \<Rightarrow> int \<Rightarrow> int \<Rightarrow> real" where
  "chatCalculateCost m inTokens outTokens =
     (let inputCost = real_of_int inTokens * CostPer1MIn m / 1000000;
          outputCost = real_of_int outTokens * CostPer1MOut m / 1000000
      in inputCost + outputCost)"

text \<open>
  \<^verbatim>\<open>sendMessage\<close>; \<open>maxTokens\<close> is the value of the \<^verbatim>\<open>--max-tokens\<close> flag and
  \<open>call\<close> the outcome of \<^verbatim>\<open>CreateChatCompletion\<close> for this request.
\<close>

definition sendMessage :: "int \<Rightarrow> completion_call \<Rightarrow> chatSession \<Rightarrow> string + apiResponse" where
  "sendMessage maxTokens call session =
     (let req = \<lparr> req_Model = ID (cs_model session), req_Messages = messages session,
                   req_MaxTokens =
                     (if maxTokens > 0 then maxTokens
                      else if DefaultMaxTokens (cs_model session) > 0
                        then DefaultMaxTokens (cs_model session)
                      else 0) \<rparr>
      in case call req of
           Inl err \<Rightarrow> Inl (''API call failed: '' @ err)
         | Inr resp \<Rightarrow>
             (if length (Choices resp) = 0 then Inl ''no response from model''
              else
                (let inTokens = PromptTokens resp;
                     outTokens = CompletionTokens resp;
                     c = chatCalculateCost (cs_model session) inTokens outTokens
                 in Inr \<lparr> content = hd (Choices resp), inputTokens = inTokens,
                          outputTokens = outTokens, cost = c \<rparr>)))"

text \<open>
  \<^verbatim>\<open>handleCommand\<close>: the session after the command and whether the loop goes on
  (\<open>False\<close> for \<^verbatim>\<open>/quit\<close>). Printing is not modelled.
\<close>

definition handleCommand :: "strings_pkg \<Rightarrow> chatSession \<Rightarrow> string \<Rightarrow> chatSession \<times> bool" where
  "handleCommand lib session cmd =
     (let c = ToLower lib cmd in
      if c = ''/quit'' \<or> c = ''/exit'' \<or> c = ''/q'' then (session, False)
      else if c = ''/clear'' then
        (let systemMsg =
               (if length (messages session) > 0 \<and>
                   Role (messages session ! 0) = ChatMessageRoleSystem
                then take 1 (messages session) else [])
         in (session\<lparr>messages := systemMsg\<rparr>, True))
      else if c = ''/cost'' then (session, True)
      else if c = ''/help'' then (session, True)
      else (session, True))"

text \<open>
  \<^verbatim>\<open>runChatLoop\<close>. Standard input is a list of reads, each a line or a read error
  other than end of file; the end of the list is end of file. \<open>api k\<close> is the
  outcome of the \<open>k\<close>-th completion call of the session. The result is the final
  session and how the loop ended.
\<close>

datatype read_result = Line string | ReadError

datatype loop_exit = Goodbye | QuitCommand | FatalReadError

text \<open>The part of the loop body after the command check: one exchange.\<close>

definition exchange :: "int \<Rightarrow> completion_call \<Rightarrow> chatSession \<Rightarrow> string \<Rightarrow> chatSession" where
  "exchange maxTokens call session input =
     (let session1 = session\<lparr>messages :=
            messages session @ [\<lparr>Role = ChatMessageRoleUser, Content = input\<rparr>]\<rparr>
      in case sendMessage maxTokens call session1 of
           Inl err \<Rightarrow>
             session1\<lparr>messages := take (length (messages session1) - 1) (messages session1)\<rparr>
         | Inr response \<Rightarrow>
             session1\<lparr>messages :=
                 messages session1 @
                   [\<lparr>Role = ChatMessageRoleAssistant, Content = content response\<rparr>],
               totalTokens :=
                 totalTokens session1 + (inputTokens response + outputTokens response),
               totalCost := totalCost session1 + cost response\<rparr>)"

fun runChatLoop ::
  "strings_pkg \<Rightarrow> int \<Rightarrow> (nat \<Rightarrow> completion_call) \<Rightarrow> nat \<Rightarrow> read_result list \<Rightarrow>
   chatSession \<Rightarrow> chatSession \<times> loop_exit" where
  "runChatLoop lib maxTokens api k [] session = (session, Goodbye)"
| "runChatLoop lib maxTokens api k (ReadError # rest) session = (session, FatalReadError)"
| "runChatLoop lib maxTokens api k (Line l # rest) session =
     (let input = TrimSpace lib l in
      if input = [] then runChatLoop lib maxTokens api k rest session
      else if HasPrefix input ''/'' then
        (case handleCommand lib session input of
           (session', True) \<Rightarrow> runChatLoop lib maxTokens api k rest session'
         | (session', False) \<Rightarrow> (session', QuitCommand))
      else runChatLoop lib maxTokens api (Suc k) rest
             (exchange maxTokens (api k) session input))"

section \<open>Example catalog\<close>

text \<open>
  Model A of the specification's cost scenario (cost-in 2.50, cost-out 10,
  cached-in 1.25 per 1M tokens) and a second model, in one provider.
\<close>

definition modelA :: Model where
  "modelA = \<lparr> ID = ''model-a'', Name = ''Model A'', CostPer1MIn = 2.5, CostPer1MOut = 10,
     CostPer1MInCached = 1.25, CostPer1MOutCached = 0, ContextWindow = 128000,
     DefaultMaxTokens = 4096, CanReason = False, SupportsImages = True \<rparr>"

definition modelB :: Model where
  "modelB = \<lparr> ID = ''model-b'', Name = ''Model B'', CostPer1MIn = 0.5, CostPer1MOut = 1.5,
     CostPer1MInCached = 0, CostPer1MOutCached = 0, ContextWindow = 200000,
     DefaultMaxTokens = 8192, CanReason = True, SupportsImages = False \<rparr>"

definition providerA :: Provider where
  "providerA = \<lparr> ProviderID = ''prov-a'', ProviderName = ''Provider A'',
     Models = [modelA, modelB] \<rparr>"

text \<open>
  Thirteen candidates for the ranking: twelve with no price, context or capability
  (simple score 100 each) and a last one that supports images (score 110); and the
  first two of them with the last.
\<close>

definition plainModel :: "string \<Rightarrow> bool \<Rightarrow> Model" where
  "plainModel name vis = \<lparr> ID = name, Name = name, CostPer1MIn = 0, CostPer1MOut = 0,
     CostPer1MInCached = 0, CostPer1MOutCached = 0, ContextWindow = 0,
     DefaultMaxTokens = 0, CanReason = False, SupportsImages = vis \<rparr>"

definition emptyProvider :: Provider where
  "emptyProvider = \<lparr> ProviderID = ''p'', ProviderName = ''P'', Models = [] \<rparr>"

definition candidate :: "string \<Rightarrow> bool \<Rightarrow> modelMatch" where
  "candidate name vis = \<lparr> model = plainModel name vis, provider = emptyProvider, score = 0 \<rparr>"

definition tieCandidates :: "modelMatch list" where
  "tieCandidates =
     [candidate ''c00'' False, candidate ''c01'' False, candidate ''c02'' False,
      candidate ''c03'' False, candidate ''c04'' False, candidate ''c05'' False,
      candidate ''c06'' False, candidate ''c07'' False, candidate ''c08'' False,
      candidate ''c09'' False, candidate ''c10'' False, candidate ''c11'' False,
      candidate ''c12'' True]"

definition smallCandidates :: "modelMatch list" where
  "smallCandidates = [candidate ''c00'' False, candidate ''c01'' False, candidate ''c12'' True]"

definition candidateID :: "modelMatch \<Rightarrow> string" where
  "candidateID mm = ID (model mm)"

text \<open>Wizard states over the two models of the catalog, and a chat session.\<close>

definition msA :: modelScore where
  "msA = \<lparr> ms_model = modelA, ms_provider = providerA, ms_score = 0, reasons = [] \<rparr>"

definition msB :: modelScore where
  "msB = \<lparr> ms_model = modelB, ms_provider = providerA, ms_score = 0, reasons = [] \<rparr>"

definition wizardVision :: wizard where
  "wizardVision =
     setupVisionList
       ((initialModel [msA, msB])
          \<lparr> step := stepVision,
            requirements :=
              \<lparr> budget = 1, contextSize = 100000, reasoning = True, vision = False \<rparr> \<rparr>)"

definition wizardResults :: wizard where
  "wizardResults = (initialModel [msA, msB]) \<lparr> step := stepResults \<rparr>"

definition keepCursor :: "msg \<Rightarrow> bubblesList \<Rightarrow> bubblesList" where
  "keepCursor ms l = l"

definition failingCall :: completion_call where
  "failingCall req = Inl ''connection refused''"

definition session0 :: chatSession where
  "session0 =
     \<lparr> cs_model = modelA,
       messages = [\<lparr> Role = ChatMessageRoleSystem, Content = ''Be brief.'' \<rparr>,
                   \<lparr> Role = ChatMessageRoleUser, Content = ''hi'' \<rparr>,
                   \<lparr> Role = ChatMessageRoleAssistant, Content = ''hello'' \<rparr>],
       totalTokens = 42, totalCost = 0.001 \<rparr>"

section \<open>Go's \<^verbatim>\<open>sort.Slice\<close> sorts\<close>

text \<open>
  Every phase of \<^verbatim>\<open>pdqsort_func\<close> rearranges the range it is given and nothing else;
  insertion sort and heap sort leave it in order, and so does the whole recursion.
  Insertion sort also keeps elements of equal key in their order.
\<close>

lemma length_Swap [simp]: "length (Swap xs i j) = length xs"
  by (simp add: Swap_def)

lemma mset_Swap: "i < length xs \<Longrightarrow> j < length xs \<Longrightarrow> mset (Swap xs i j) = mset xs"
  unfolding Swap_def by (rule mset_swap)

lemma nth_Swap:
  "i < length xs \<Longrightarrow> j < length xs \<Longrightarrow> k < length xs \<Longrightarrow>
   Swap xs i j ! k = (if k = j then xs ! i else if k = i then xs ! j else xs ! k)"
  by (simp add: Swap_def nth_list_update)

lemma perm_in_refl [simp]: "perm_in a b xs xs"
  by (simp add: perm_in_def)

lemma perm_in_trans: "perm_in a b xs ys \<Longrightarrow> perm_in a b ys zs \<Longrightarrow> perm_in a b xs zs"
  by (simp add: perm_in_def)

lemma perm_in_mono: "perm_in a b xs ys \<Longrightarrow> a' \<le> a \<Longrightarrow> b \<le> b' \<Longrightarrow> perm_in a' b' xs ys"
  by (auto simp: perm_in_def)

lemma perm_in_length: "perm_in a b xs ys \<Longrightarrow> length ys = length xs"
  by (simp add: perm_in_def)

lemma perm_in_mset: "perm_in a b xs ys \<Longrightarrow> mset ys = mset xs"
  by (simp add: perm_in_def)

lemma perm_in_nth: "perm_in a b xs ys \<Longrightarrow> k < length xs \<Longrightarrow> k < a \<or> b \<le> k \<Longrightarrow> ys ! k = xs ! k"
  by (auto simp: perm_in_def)

lemma perm_in_Swap:
  "a \<le> i \<Longrightarrow> i < b \<Longrightarrow> a \<le> j \<Longrightarrow> j < b \<Longrightarrow> b \<le> length xs \<Longrightarrow> perm_in a b xs (Swap xs i j)"
  by (auto simp: perm_in_def mset_Swap nth_Swap)

lemma perm_in_slice:
  assumes "perm_in a b xs ys" and "a \<le> b" and "b \<le> length xs"
  shows "mset (drop a (take b ys)) = mset (drop a (take b xs))"
proof -
  have len: "length ys = length xs" using assms(1) by (rule perm_in_length)
  have t: "take a ys = take a xs"
    using assms len by (intro nth_take_lemma) (auto simp: perm_in_def)
  have d: "drop b ys = drop b xs"
    using assms len by (intro nth_equalityI) (auto simp: perm_in_def)
  have sx: "xs = take a xs @ drop a (take b xs) @ drop b xs"
    using assms(2) by (metis append_assoc append_take_drop_id take_take min.absorb1 drop_take take_add le_add_diff_inverse)
  have sy: "ys = take a ys @ drop a (take b ys) @ drop b ys"
    using assms(2) by (metis append_assoc append_take_drop_id take_take min.absorb1 drop_take take_add le_add_diff_inverse)
  have my: "mset ys = mset (take a ys) + mset (drop a (take b ys)) + mset (drop b ys)"
    using arg_cong [OF sy, of mset] by (simp only: mset_append add.assoc)
  have mx: "mset xs = mset (take a xs) + mset (drop a (take b xs)) + mset (drop b xs)"
    using arg_cong [OF sx, of mset] by (simp only: mset_append add.assoc)
  have "mset (take a xs) + mset (drop a (take b ys)) + mset (drop b xs) = mset ys"
    using my by (simp only: t d)
  also have "\<dots> = mset xs" using assms(1) by (rule perm_in_mset)
  also have "\<dots> = mset (take a xs) + mset (drop a (take b xs)) + mset (drop b xs)"
    by (rule mx)
  finally show ?thesis by simp
qed

lemma range_all_set:
  assumes "b \<le> length xs"
  shows "(\<forall>k. a \<le> k \<and> k < b \<longrightarrow> P (xs ! k)) \<longleftrightarrow> (\<forall>x \<in> set (drop a (take b xs)). P x)"
proof
  assume l: "\<forall>k. a \<le> k \<and> k < b \<longrightarrow> P (xs ! k)"
  show "\<forall>x \<in> set (drop a (take b xs)). P x"
  proof
    fix x assume "x \<in> set (drop a (take b xs))"
    then obtain n where n: "n < length (drop a (take b xs))" "x = drop a (take b xs) ! n"
      by (auto simp: in_set_conv_nth)
    then have "a + n < b" using assms by simp
    moreover have "x = xs ! (a + n)" using n assms by simp
    ultimately show "P x" using l by simp
  qed
next
  assume r: "\<forall>x \<in> set (drop a (take b xs)). P x"
  show "\<forall>k. a \<le> k \<and> k < b \<longrightarrow> P (xs ! k)"
  proof (intro allI impI)
    fix k assume k: "a \<le> k \<and> k < b"
    then have "k - a < b - a" by linarith
    then have "k - a < length (drop a (take b xs))" using assms by simp
    moreover have "drop a (take b xs) ! (k - a) = xs ! k" using k assms by simp
    ultimately show "P (xs ! k)" using r by (metis nth_mem)
  qed
qed

lemma perm_in_all:
  assumes "perm_in a' b' xs ys" and "a \<le> a'" and "b' \<le> b" and "a \<le> b" and "b \<le> length xs"
    and "\<forall>k. a \<le> k \<and> k < b \<longrightarrow> P (xs ! k)"
  shows "\<forall>k. a \<le> k \<and> k < b \<longrightarrow> P (ys ! k)"
proof -
  have p: "perm_in a b xs ys" using assms(1-3) by (rule perm_in_mono)
  have "set (drop a (take b ys)) = set (drop a (take b xs))"
    using perm_in_slice [OF p assms(4,5)] by (rule mset_eq_setD)
  moreover have "b \<le> length ys" using assms(5) perm_in_length [OF p] by simp
  ultimately show ?thesis
    using assms(5,6) by (simp add: range_all_set)
qed


lemma Swap_adjacent:
  assumes "Suc i < length xs"
  shows "Swap xs (Suc i) i = take i xs @ [xs ! Suc i, xs ! i] @ drop (Suc (Suc i)) xs"
proof (rule nth_equalityI)
  show "length (Swap xs (Suc i) i) = length (take i xs @ [xs ! Suc i, xs ! i] @ drop (Suc (Suc i)) xs)"
    using assms by simp
next
  fix k assume "k < length (Swap xs (Suc i) i)"
  then have k: "k < length xs" by simp
  consider "k < i" | "k = i" | "k = Suc i" | "k > Suc i" by linarith
  then show "Swap xs (Suc i) i ! k = (take i xs @ [xs ! Suc i, xs ! i] @ drop (Suc (Suc i)) xs) ! k"
  proof cases
    case 1
    then show ?thesis using assms k by (simp add: nth_Swap nth_append)
  next
    case 2
    then show ?thesis using assms k by (simp add: nth_Swap nth_append)
  next
    case 3
    then show ?thesis using assms k by (simp add: nth_Swap nth_append)
  next
    case 4
    then obtain d where d: "k = Suc (Suc i) + d" using less_imp_add_positive
      by (metis Suc_leI add_Suc le_add_diff_inverse)
    then show ?thesis using assms k by (simp add: nth_Swap nth_append)
  qed
qed

lemma split_adjacent:
  assumes "Suc i < length xs"
  shows "xs = take i xs @ [xs ! i, xs ! Suc i] @ drop (Suc (Suc i)) xs"
proof -
  have "drop i xs = xs ! i # drop (Suc i) xs"
    using assms by (simp add: Cons_nth_drop_Suc)
  moreover have "drop (Suc i) xs = xs ! Suc i # drop (Suc (Suc i)) xs"
    using assms by (simp add: Cons_nth_drop_Suc)
  ultimately have "drop i xs = [xs ! i, xs ! Suc i] @ drop (Suc (Suc i)) xs" by simp
  then show ?thesis by (metis append_take_drop_id)
qed

lemma filter_Swap_adjacent:
  assumes "Suc i < length xs" and "f (xs ! Suc i) \<noteq> f (xs ! i)"
  shows "filter (\<lambda>x. f x = k) (Swap xs (Suc i) i) = filter (\<lambda>x. f x = k) xs"
proof -
  have "filter (\<lambda>x. f x = k) (Swap xs (Suc i) i) =
      filter (\<lambda>x. f x = k) (take i xs) @ filter (\<lambda>x. f x = k) [xs ! Suc i, xs ! i] @
      filter (\<lambda>x. f x = k) (drop (Suc (Suc i)) xs)"
    unfolding Swap_adjacent [OF assms(1)] by simp
  also have "filter (\<lambda>x. f x = k) [xs ! Suc i, xs ! i] = filter (\<lambda>x. f x = k) [xs ! i, xs ! Suc i]"
    using assms(2) by auto
  also have "filter (\<lambda>x. f x = k) (take i xs) @ filter (\<lambda>x. f x = k) [xs ! i, xs ! Suc i] @
      filter (\<lambda>x. f x = k) (drop (Suc (Suc i)) xs) =
      filter (\<lambda>x. f x = k) (take i xs @ [xs ! i, xs ! Suc i] @ drop (Suc (Suc i)) xs)"
    by simp
  also have "\<dots> = filter (\<lambda>x. f x = k) xs"
    using split_adjacent [OF assms(1)] by simp
  finally show ?thesis .
qed

lemma insertShift_stable:
  "j < length xs \<Longrightarrow>
   filter (\<lambda>x. f x = k) (insertShift (keyLess f) xs a j) = filter (\<lambda>x. f x = k) xs"
proof (induction "keyLess f" xs a j rule: insertShift.induct)
  case (1 xs a j)
  show ?case
  proof (cases "j > a \<and> keyLess f (xs ! j) (xs ! (j - 1))")
    case True
    then obtain i where i: "j = Suc i" by (cases j) auto
    have ne: "f (xs ! Suc i) \<noteq> f (xs ! i)" using True i by (auto simp: keyLess_def)
    have "filter (\<lambda>x. f x = k) (insertShift (keyLess f) (Swap xs j (j - 1)) a (j - 1)) =
        filter (\<lambda>x. f x = k) (Swap xs j (j - 1))"
      using "1.hyps" True "1.prems" by simp
    also have "\<dots> = filter (\<lambda>x. f x = k) xs"
      using filter_Swap_adjacent [OF _ ne] "1.prems" i by simp
    finally show ?thesis using True by (subst insertShift.simps) simp
  next
    case False
    then show ?thesis by (subst insertShift.simps) auto
  qed
qed

lemma insertShift_sorted:
  assumes "a \<le> j" and "j \<le> J" and "J < length xs"
    and "sorted_in f a j xs" and "sorted_in f j (Suc J) xs"
    and "\<forall>i k. a \<le> i \<and> i < j \<and> j < k \<and> k \<le> J \<longrightarrow> f (xs ! i) \<le> f (xs ! k)"
  shows "sorted_in f a (Suc J) (insertShift (keyLess f) xs a j) \<and>
         perm_in a (Suc j) xs (insertShift (keyLess f) xs a j)"
  using assms
proof (induction "keyLess f" xs a j rule: insertShift.induct)
  case (1 xs a j)
  show ?case
  proof (cases "j > a \<and> keyLess f (xs ! j) (xs ! (j - 1))")
    case True
    then obtain i where i: "j = Suc i" by (cases j) auto
    have lt: "f (xs ! Suc i) < f (xs ! i)" using True i by (auto simp: keyLess_def)
    define ys where "ys = Swap xs j (j - 1)"
    have len: "length ys = length xs" by (simp add: ys_def)
    have nth: "\<And>k. k < length xs \<Longrightarrow>
        ys ! k = (if k = i then xs ! Suc i else if k = Suc i then xs ! i else xs ! k)"
      using "1.prems"(2,3) i by (simp add: ys_def nth_Swap)
    have p1: "sorted_in f a (j - 1) ys"
      using "1.prems" i nth unfolding sorted_in_def by auto
    have p2: "sorted_in f (j - 1) (Suc J) ys"
      unfolding sorted_in_def
    proof (intro allI impI)
      fix p q assume pq: "j - 1 \<le> p \<and> p < q \<and> q < Suc J"
      then have q: "q < length xs" "p < length xs" using "1.prems"(3) by auto
      consider "p = i" "q = Suc i" | "p = i" "q > Suc i" | "p = Suc i" | "p > Suc i"
        using pq i by force
      then show "f (ys ! p) \<le> f (ys ! q)"
      proof cases
        case 1
        then show ?thesis using nth q lt by simp
      next
        case 2
        have "f (xs ! Suc i) \<le> f (xs ! q)"
          using "1.prems"(5) 2 pq i unfolding sorted_in_def by auto
        then show ?thesis using nth q 2 by simp
      next
        case 3
        have "f (xs ! i) \<le> f (xs ! q)"
          using "1.prems"(6) 3 pq i True by auto
        then show ?thesis using nth q 3 pq by simp
      next
        case 4
        have "f (xs ! p) \<le> f (xs ! q)"
          using "1.prems"(5) 4 pq i unfolding sorted_in_def by auto
        then show ?thesis using nth q 4 pq by simp
      qed
    qed
    have p3: "\<forall>p q. a \<le> p \<and> p < j - 1 \<and> j - 1 < q \<and> q \<le> J \<longrightarrow> f (ys ! p) \<le> f (ys ! q)"
    proof (intro allI impI)
      fix p q assume pq: "a \<le> p \<and> p < j - 1 \<and> j - 1 < q \<and> q \<le> J"
      then have q: "q < length xs" "p < length xs" using "1.prems"(3) by auto
      show "f (ys ! p) \<le> f (ys ! q)"
      proof (cases "q = Suc i")
        case True
        have "f (xs ! p) \<le> f (xs ! i)"
          using "1.prems"(4) pq i unfolding sorted_in_def by auto
        then show ?thesis using nth q True pq i by simp
      next
        case False
        have "f (xs ! p) \<le> f (xs ! q)"
          using "1.prems"(6) pq i False by auto
        then show ?thesis using nth q False pq i by simp
      qed
    qed
    have ih: "sorted_in f a (Suc J) (insertShift (keyLess f) ys a (j - 1)) \<and>
         perm_in a (Suc (j - 1)) ys (insertShift (keyLess f) ys a (j - 1))"
      unfolding ys_def
      using "1.hyps" [OF True] True "1.prems"(2,3) p1 p2 p3 len unfolding ys_def by auto
    have sw: "perm_in a (Suc j) xs ys"
      unfolding ys_def using True "1.prems"(2,3) by (intro perm_in_Swap) auto
    have "perm_in a (Suc j) xs (insertShift (keyLess f) ys a (j - 1))"
      using sw ih perm_in_mono perm_in_trans
      by (metis Suc_leI Suc_pred' True le_refl less_imp_le_nat order.strict_trans1 zero_less_Suc le_SucI diff_le_self Suc_le_mono)
    moreover have res: "insertShift (keyLess f) xs a j = insertShift (keyLess f) ys a (j - 1)"
      using True unfolding ys_def by (subst insertShift.simps) simp
    ultimately show ?thesis using ih by simp
  next
    case False
    have res: "insertShift (keyLess f) xs a j = xs"
      using False by (subst insertShift.simps) auto
    have "sorted_in f a (Suc J) xs"
      unfolding sorted_in_def
    proof (intro allI impI)
      fix p q assume pq: "a \<le> p \<and> p < q \<and> q < Suc J"
      consider "q < j" | "p \<ge> j" | "p < j" "q > j" | "p < j" "q = j" by linarith
      then show "f (xs ! p) \<le> f (xs ! q)"
      proof cases
        case 1
        then show ?thesis using "1.prems"(4) pq unfolding sorted_in_def by auto
      next
        case 2
        then show ?thesis using "1.prems"(5) pq unfolding sorted_in_def by auto
      next
        case 3
        then show ?thesis using "1.prems"(6) pq by auto
      next
        case 4
        then have ja: "j > a" using pq by linarith
        then have nl: "f (xs ! (j - 1)) \<le> f (xs ! j)" using False by (auto simp: keyLess_def)
        show ?thesis
        proof (cases "p = j - 1")
          case True
          then show ?thesis using nl 4 by simp
        next
          case False
          then have "f (xs ! p) \<le> f (xs ! (j - 1))"
            using "1.prems"(4) pq 4 ja unfolding sorted_in_def by auto
          then show ?thesis using nl 4 by simp
        qed
      qed
    qed
    then show ?thesis using res by simp
  qed
qed


lemma sorted_in_empty [simp]: "b \<le> Suc a \<Longrightarrow> sorted_in f a b xs"
  by (auto simp: sorted_in_def)

lemma insertionSort_loop_props:
  assumes "a < i" and "i \<le> b" and "b \<le> length xs" and "sorted_in f a i xs"
  shows "sorted_in f a b (insertionSort_loop (keyLess f) xs a b i) \<and>
         perm_in a b xs (insertionSort_loop (keyLess f) xs a b i) \<and>
         filter (\<lambda>x. f x = k) (insertionSort_loop (keyLess f) xs a b i) = filter (\<lambda>x. f x = k) xs"
  using assms
proof (induction "keyLess f" xs a b i rule: insertionSort_loop.induct)
  case (1 xs a b i)
  show ?case
  proof (cases "i < b")
    case True
    define ys where "ys = insertShift (keyLess f) xs a i"
    have il: "i < length xs" using True "1.prems" by simp
    have s: "sorted_in f a (Suc i) ys \<and> perm_in a (Suc i) xs ys"
      unfolding ys_def using "1.prems" il
      by (intro insertShift_sorted) auto
    have st: "filter (\<lambda>x. f x = k) ys = filter (\<lambda>x. f x = k) xs"
      unfolding ys_def using il by (rule insertShift_stable)
    have len: "length ys = length xs" using s perm_in_length by blast
    have ih: "sorted_in f a b (insertionSort_loop (keyLess f) ys a b (i + 1)) \<and>
         perm_in a b ys (insertionSort_loop (keyLess f) ys a b (i + 1)) \<and>
         filter (\<lambda>x. f x = k) (insertionSort_loop (keyLess f) ys a b (i + 1)) =
           filter (\<lambda>x. f x = k) ys"
      unfolding ys_def
      using "1.hyps" [OF True] True "1.prems" s len unfolding ys_def by simp
    have pm: "perm_in a b xs ys"
      using s True by (auto intro: perm_in_mono)
    have res: "insertionSort_loop (keyLess f) xs a b i =
        insertionSort_loop (keyLess f) ys a b (i + 1)"
      using True unfolding ys_def by (subst insertionSort_loop.simps) simp
    have "perm_in a b xs (insertionSort_loop (keyLess f) ys a b (i + 1))"
      using pm ih by (blast intro: perm_in_trans)
    then show ?thesis
      unfolding res using ih st by simp
  next
    case False
    then have res: "insertionSort_loop (keyLess f) xs a b i = xs"
      by (subst insertionSort_loop.simps) simp
    have "i = b" using False "1.prems" by simp
    then show ?thesis unfolding res using "1.prems" by simp
  qed
qed

lemma insertionSort_func_props:
  assumes "a \<le> b" and "b \<le> length xs"
  shows "sorted_in f a b (insertionSort_func (keyLess f) xs a b) \<and>
         perm_in a b xs (insertionSort_func (keyLess f) xs a b) \<and>
         filter (\<lambda>x. f x = k) (insertionSort_func (keyLess f) xs a b) = filter (\<lambda>x. f x = k) xs"
proof (cases "a < b")
  case True
  then show ?thesis
    unfolding insertionSort_func_def using assms
    by (intro insertionSort_loop_props) auto
next
  case False
  then have "insertionSort_func (keyLess f) xs a b = xs"
    unfolding insertionSort_func_def by (subst insertionSort_loop.simps) simp
  then show ?thesis using False assms by simp
qed

lemma reverseRange_loop_perm:
  "a \<le> i \<Longrightarrow> j < b \<Longrightarrow> b \<le> length xs \<Longrightarrow> perm_in a b xs (reverseRange_loop xs i j)"
proof (induction xs i j rule: reverseRange_loop.induct)
  case (1 xs i j)
  show ?case
  proof (cases "i < j")
    case True
    have "perm_in a b xs (Swap xs i j)"
      using 1 True by (intro perm_in_Swap) auto
    moreover have "perm_in a b (Swap xs i j) (reverseRange_loop (Swap xs i j) (i + 1) (j - 1))"
      using "1.IH" [OF True] "1.prems" True by simp
    ultimately show ?thesis
      using True by (subst reverseRange_loop.simps) (auto intro: perm_in_trans)
  next
    case False
    then show ?thesis by (subst reverseRange_loop.simps) simp
  qed
qed

lemma reverseRange_func_perm:
  "a < b \<Longrightarrow> b \<le> length xs \<Longrightarrow> perm_in a b xs (reverseRange_func xs a b)"
  unfolding reverseRange_func_def by (intro reverseRange_loop_perm) auto

lemma bitsLen_bound: "0 < n \<Longrightarrow> 2 ^ bitsLen n \<le> 2 * n"
proof (induction n rule: bitsLen.induct)
  case (1 n)
  show ?case
  proof (cases "n div 2 = 0")
    case True
    then have "n = 1" using "1.prems" by auto
    then show ?thesis by simp
  next
    case False
    then have "2 ^ bitsLen (n div 2) \<le> 2 * (n div 2)"
      using "1.IH" "1.prems" by simp
    then have "2 * 2 ^ bitsLen (n div 2) \<le> 2 * n" by simp
    then show ?thesis using "1.prems" by (subst bitsLen.simps) simp
  qed
qed

lemma breakPatterns_loop_perm:
  assumes "b \<le> length xs" and "0 < len" and "a + len = b" and "shift = bitsLen len"
    and "a + 1 \<le> idx" and "idx - 1 + i + n \<le> b"
  shows "perm_in a b xs (breakPatterns_loop nxt xs a len shift idx random i n)"
  using assms
proof (induction n arbitrary: xs random i)
  case 0
  then show ?case by simp
next
  case (Suc n)
  define r where "r = nxt random"
  define o1 where "o1 = take_bit shift (unat r)"
  define other where "other = (if o1 \<ge> len then o1 - len else o1)"
  have "o1 < 2 ^ shift" unfolding o1_def by simp
  also have "\<dots> \<le> 2 * len" using bitsLen_bound Suc.prems by simp
  finally have ol: "other < len" unfolding other_def by auto
  have sw: "perm_in a b xs (Swap xs (idx - 1 + i) (a + other))"
    using Suc.prems ol by (intro perm_in_Swap) auto
  have rec: "perm_in a b (Swap xs (idx - 1 + i) (a + other))
      (breakPatterns_loop nxt (Swap xs (idx - 1 + i) (a + other)) a len shift idx r (i + 1) n)"
    using Suc.prems by (intro Suc.IH) auto
  have res: "breakPatterns_loop nxt xs a len shift idx random i (Suc n) =
      breakPatterns_loop nxt (Swap xs (idx - 1 + i) (a + other)) a len shift idx r (i + 1) n"
    by (simp add: Let_def r_def o1_def other_def)
  show ?case
    unfolding res using sw rec by (rule perm_in_trans)
qed

lemma breakPatterns_func_perm:
  assumes "a \<le> b" and "b \<le> length xs"
  shows "perm_in a b xs (breakPatterns_func nxt xs a b)"
proof (cases "b - a \<ge> 8")
  case True
  define len where "len = b - a"
  define idx where "idx = a + (len div 4) * 2 - 1"
  have l8: "8 \<le> len" using True by (simp add: len_def)
  have "len div 4 * 2 < len" using l8 by linarith
  then have ub: "a + len div 4 * 2 < b" using assms by (simp add: len_def)
  have "2 \<le> len div 4" using l8 by simp
  then have lb: "a + 1 \<le> idx" unfolding idx_def by simp
  have ub2: "idx - 1 + 0 + 3 \<le> b" using ub lb unfolding idx_def by simp
  have "perm_in a b xs (breakPatterns_loop nxt xs a len (bitsLen len) idx (word_of_nat len) 0 3)"
    using assms l8 lb ub2 by (intro breakPatterns_loop_perm) (auto simp: len_def)
  then show ?thesis
    using True unfolding breakPatterns_func_def Let_def len_def idx_def by simp
next
  case False
  then show ?thesis by (simp add: breakPatterns_func_def Let_def)
qed


lemma scanUp_spec:
  "(\<forall>k. i \<le> k \<and> k < scanUp P xs i j \<longrightarrow> P xs k) \<and>
   (scanUp P xs i j \<le> j \<longrightarrow> \<not> P xs (scanUp P xs i j))"
proof (induction P xs i j rule: scanUp.induct)
  case (1 P xs i j)
  show ?case
  proof (cases "i \<le> j \<and> P xs i")
    case True
    then have res: "scanUp P xs i j = scanUp P xs (i + 1) j"
      by (subst scanUp.simps) simp
    have ih: "(\<forall>k. i + 1 \<le> k \<and> k < scanUp P xs (i + 1) j \<longrightarrow> P xs k) \<and>
        (scanUp P xs (i + 1) j \<le> j \<longrightarrow> \<not> P xs (scanUp P xs (i + 1) j))"
      using "1.IH" True by simp
    have "P xs k" if "i \<le> k" "k < scanUp P xs (i + 1) j" for k
    proof (cases "k = i")
      case True
      then show ?thesis using \<open>i \<le> j \<and> P xs i\<close> by simp
    next
      case False
      then have "i + 1 \<le> k" using that by simp
      then show ?thesis using ih that by blast
    qed
    then show ?thesis unfolding res using ih by blast
  next
    case False
    then have res: "scanUp P xs i j = i"
      by (subst scanUp.simps) auto
    show ?thesis unfolding res using False by auto
  qed
qed

lemma scanDown_spec:
  "(\<forall>k. scanDown Q xs i j < k \<and> k \<le> j \<longrightarrow> Q xs k) \<and>
   (0 < i \<and> i \<le> scanDown Q xs i j \<longrightarrow> \<not> Q xs (scanDown Q xs i j))"
proof (induction Q xs i j rule: scanDown.induct)
  case (1 Q xs i)
  then show ?case by auto
next
  case (2 Q xs i j)
  show ?case
  proof (cases "i \<le> Suc j \<and> Q xs (Suc j)")
    case True
    then have res: "scanDown Q xs i (Suc j) = scanDown Q xs i j" by simp
    have ih: "(\<forall>k. scanDown Q xs i j < k \<and> k \<le> j \<longrightarrow> Q xs k) \<and>
        (0 < i \<and> i \<le> scanDown Q xs i j \<longrightarrow> \<not> Q xs (scanDown Q xs i j))"
      using "2.IH" True by simp
    have "Q xs k" if "scanDown Q xs i j < k" "k \<le> Suc j" for k
    proof (cases "k = Suc j")
      case True
      then show ?thesis using \<open>i \<le> Suc j \<and> Q xs (Suc j)\<close> by simp
    next
      case False
      then have "k \<le> j" using that by simp
      then show ?thesis using ih that by blast
    qed
    then show ?thesis unfolding res using ih by blast
  next
    case False
    then have res: "scanDown Q xs i (Suc j) = Suc j" by auto
    show ?thesis unfolding res using False by auto
  qed
qed

lemma partitionLoop_inv:
  assumes "a < i" and "j < b" and "b \<le> length xs"
    and "\<forall>k. a < k \<and> k < i \<longrightarrow> A (xs ! k) (xs ! a)"
    and "\<forall>k. j < k \<and> k < b \<longrightarrow> \<not> A (xs ! k) (xs ! a)"
    and "partitionLoop (\<lambda>d i. A (d ! i) (d ! a)) (\<lambda>d j. \<not> A (d ! j) (d ! a)) xs i j = (ys, i', j')"
  shows "perm_in (Suc a) b xs ys \<and> j' < i' \<and>
         (\<forall>k. a < k \<and> k < i' \<longrightarrow> A (ys ! k) (ys ! a)) \<and>
         (\<forall>k. j' < k \<and> k < b \<longrightarrow> \<not> A (ys ! k) (ys ! a))"
  using assms
proof (induction "\<lambda>(d::'a list) i. A (d ! i) (d ! a)" "\<lambda>(d::'a list) j. \<not> A (d ! j) (d ! a)" xs i j
    arbitrary: ys i' j' rule: partitionLoop.induct)
  case (1 xs i j)
  define P where "P = (\<lambda>(d::'a list) i. A (d ! i) (d ! a))"
  define Q where "Q = (\<lambda>(d::'a list) j. \<not> A (d ! j) (d ! a))"
  define iu where "iu = scanUp P xs i j"
  define jd where "jd = scanDown Q xs iu j"
  have iu_ge: "i \<le> iu" unfolding iu_def by (rule scanUp_ge)
  have jd_le: "jd \<le> j" unfolding jd_def by (rule scanDown_le)
  have up: "\<forall>k. i \<le> k \<and> k < iu \<longrightarrow> A (xs ! k) (xs ! a)"
    and up_stop: "iu \<le> j \<longrightarrow> \<not> A (xs ! iu) (xs ! a)"
    using scanUp_spec [of i P xs j] unfolding iu_def P_def by blast+
  have down: "\<forall>k. jd < k \<and> k \<le> j \<longrightarrow> \<not> A (xs ! k) (xs ! a)"
    and down_stop: "0 < iu \<and> iu \<le> jd \<longrightarrow> A (xs ! jd) (xs ! a)"
    using scanDown_spec [of Q xs iu j] unfolding jd_def Q_def by blast+
  have left: "\<forall>k. a < k \<and> k < iu \<longrightarrow> A (xs ! k) (xs ! a)"
  proof (intro allI impI)
    fix k assume "a < k \<and> k < iu"
    then show "A (xs ! k) (xs ! a)"
      using "1.prems"(4) up by (cases "k < i") auto
  qed
  have right: "\<forall>k. jd < k \<and> k < b \<longrightarrow> \<not> A (xs ! k) (xs ! a)"
  proof (intro allI impI)
    fix k assume "jd < k \<and> k < b"
    then show "\<not> A (xs ! k) (xs ! a)"
      using "1.prems"(5) down by (cases "k \<le> j") auto
  qed
  show ?case
  proof (cases "iu > jd")
    case True
    then have "(ys, i', j') = (xs, iu, jd)"
      using "1.prems"(6)
      by (subst (asm) partitionLoop.simps) (auto simp: iu_def jd_def P_def Q_def Let_def)
    then show ?thesis using True left right by simp
  next
    case False
    define zs where "zs = Swap xs iu jd"
    have rec: "partitionLoop P Q zs (iu + 1) (jd - 1) = (ys, i', j')"
      using "1.prems"(6) False unfolding zs_def
      by (subst (asm) partitionLoop.simps) (auto simp: iu_def jd_def P_def Q_def Let_def)
    have b1: "a < iu" "iu \<le> jd" "jd < b" "jd < length xs" "iu < length xs" "a < length xs"
      using "1.prems"(1,2,3) iu_ge jd_le False by auto
    have nA: "\<not> A (xs ! iu) (xs ! a)" using up_stop b1 jd_le by auto
    have yA: "A (xs ! jd) (xs ! a)" using down_stop b1 by auto
    have za: "zs ! a = xs ! a" unfolding zs_def using b1 by (simp add: nth_Swap)
    have zn: "\<And>k. k < length xs \<Longrightarrow>
        zs ! k = (if k = jd then xs ! iu else if k = iu then xs ! jd else xs ! k)"
      unfolding zs_def using b1 by (simp add: nth_Swap)
    have l2: "\<forall>k. a < k \<and> k < iu + 1 \<longrightarrow> A (zs ! k) (zs ! a)"
    proof (intro allI impI)
      fix k assume k: "a < k \<and> k < iu + 1"
      then have "k < length xs" using b1 by simp
      then show "A (zs ! k) (zs ! a)"
        using zn [of k] za left yA k nA b1 by (cases "k = iu") auto
    qed
    have r2: "\<forall>k. jd - 1 < k \<and> k < b \<longrightarrow> \<not> A (zs ! k) (zs ! a)"
    proof (intro allI impI)
      fix k assume k: "jd - 1 < k \<and> k < b"
      then have "k < length xs" using "1.prems"(3) by simp
      moreover have "k = jd \<or> jd < k" using k by linarith
      ultimately show "\<not> A (zs ! k) (zs ! a)"
        using zn [of k] za right nA yA b1 k by auto
    qed
    have ih: "perm_in (Suc a) b zs ys \<and> j' < i' \<and>
         (\<forall>k. a < k \<and> k < i' \<longrightarrow> A (ys ! k) (ys ! a)) \<and>
         (\<forall>k. j' < k \<and> k < b \<longrightarrow> \<not> A (ys ! k) (ys ! a))"
      unfolding zs_def
    proof (rule "1.hyps" [of iu jd ys i' j'])
      show "iu = scanUp (\<lambda>d i. A (d ! i) (d ! a)) xs i j" by (simp add: iu_def P_def)
      show "jd = scanDown (\<lambda>d j. \<not> A (d ! j) (d ! a)) xs iu j" by (simp add: jd_def Q_def)
      show "\<not> jd < iu" using False by simp
      show "a < iu + 1" using b1 by simp
      show "jd - 1 < b" using b1 by simp
      show "b \<le> length (Swap xs iu jd)" using "1.prems"(3) by simp
      show "\<forall>k. a < k \<and> k < iu + 1 \<longrightarrow> A (Swap xs iu jd ! k) (Swap xs iu jd ! a)"
        using l2 by (simp add: zs_def)
      show "\<forall>k. jd - 1 < k \<and> k < b \<longrightarrow> \<not> A (Swap xs iu jd ! k) (Swap xs iu jd ! a)"
        using r2 by (simp add: zs_def)
      show "partitionLoop (\<lambda>d i. A (d ! i) (d ! a)) (\<lambda>d j. \<not> A (d ! j) (d ! a))
          (Swap xs iu jd) (iu + 1) (jd - 1) = (ys, i', j')"
        using rec by (simp add: zs_def P_def Q_def)
    qed
    have "perm_in (Suc a) b xs zs"
      unfolding zs_def using b1 "1.prems"(3) by (intro perm_in_Swap) auto
    then have "perm_in (Suc a) b xs ys" using ih by (blast intro: perm_in_trans)
    then show ?thesis using ih by simp
  qed
qed


lemma partition_func_loop:
  assumes "partition_func lessf xs a b pivot = (ys, mid, ap)"
  shows "\<exists>d i. partitionLoop (\<lambda>d i. lessf (d ! i) (d ! a)) (\<lambda>d j. \<not> lessf (d ! j) (d ! a))
           (Swap xs a pivot) (a + 1) (b - 1) = (d, i, mid) \<and> ys = Swap d mid a"
proof -
  define P where "P = (\<lambda>(d::'a list) i. lessf (d ! i) (d ! a))"
  define Q where "Q = (\<lambda>(d::'a list) j. \<not> lessf (d ! j) (d ! a))"
  define d0 where "d0 = Swap xs a pivot"
  define i1 where "i1 = scanUp P d0 (a + 1) (b - 1)"
  define j1 where "j1 = scanDown Q d0 i1 (b - 1)"
  show ?thesis
  proof (cases "i1 > j1")
    case True
    have "partitionLoop P Q d0 (a + 1) (b - 1) = (d0, i1, j1)"
      using True by (subst partitionLoop.simps) (simp add: i1_def j1_def Let_def)
    moreover have "ys = Swap d0 j1 a" "mid = j1"
      using assms True
      by (auto simp: partition_func_def Let_def d0_def P_def Q_def i1_def j1_def)
    ultimately show ?thesis unfolding P_def Q_def d0_def by blast
  next
    case False
    obtain d2 i2 j2 where pl: "partitionLoop P Q (Swap d0 i1 j1) (i1 + 1) (j1 - 1) = (d2, i2, j2)"
      by (cases "partitionLoop P Q (Swap d0 i1 j1) (i1 + 1) (j1 - 1)")
    have "partitionLoop P Q d0 (a + 1) (b - 1) = (d2, i2, j2)"
      using False pl by (subst partitionLoop.simps) (simp add: i1_def j1_def Let_def)
    moreover have "ys = Swap d2 j2 a" "mid = j2"
      using assms False pl
      by (auto simp: partition_func_def Let_def d0_def P_def Q_def i1_def j1_def)
    ultimately show ?thesis unfolding P_def Q_def d0_def by blast
  qed
qed

lemma partition_func_props:
  assumes "a < b" and "b \<le> length xs" and "a \<le> pivot" and "pivot < b"
    and "partition_func (keyLess f) xs a b pivot = (ys, mid, ap)"
  shows "perm_in a b xs ys \<and> a \<le> mid \<and> mid < b \<and>
         (\<forall>k. a \<le> k \<and> k < mid \<longrightarrow> f (ys ! k) < f (ys ! mid)) \<and>
         (\<forall>k. mid < k \<and> k < b \<longrightarrow> f (ys ! mid) \<le> f (ys ! k))"
proof -
  define d0 where "d0 = Swap xs a pivot"
  obtain d i where pl: "partitionLoop (\<lambda>d i. keyLess f (d ! i) (d ! a))
      (\<lambda>d j. \<not> keyLess f (d ! j) (d ! a)) d0 (a + 1) (b - 1) = (d, i, mid)"
    and ys: "ys = Swap d mid a"
    using partition_func_loop [OF assms(5)] unfolding d0_def by blast
  have mid: "a \<le> mid" "mid < b" using partition_func_mid [OF assms(1,5)] by simp_all
  have p0: "perm_in a b xs d0"
    unfolding d0_def using assms by (intro perm_in_Swap) auto
  have inv: "perm_in (Suc a) b d0 d \<and> mid < i \<and>
         (\<forall>k. a < k \<and> k < i \<longrightarrow> keyLess f (d ! k) (d ! a)) \<and>
         (\<forall>k. mid < k \<and> k < b \<longrightarrow> \<not> keyLess f (d ! k) (d ! a))"
    using assms(1,2) by (intro partitionLoop_inv [OF _ _ _ _ _ pl]) (auto simp: d0_def)
  have len: "length d = length xs" "length d0 = length xs"
    using inv perm_in_length p0 by (metis, simp add: d0_def)
  have p1: "perm_in a b d0 d" using inv by (auto intro: perm_in_mono)
  have p2: "perm_in a b d ys"
    unfolding ys using mid assms len by (intro perm_in_Swap) auto
  have perm: "perm_in a b xs ys"
    using p0 p1 p2 by (blast intro: perm_in_trans)
  have nth: "\<And>k. k < length xs \<Longrightarrow>
      ys ! k = (if k = a then d ! mid else if k = mid then d ! a else d ! k)"
    unfolding ys using mid assms(1,2) len by (simp add: nth_Swap)
  have left: "f (ys ! k) < f (ys ! mid)" if "a \<le> k \<and> k < mid" for k
  proof -
    have kl: "k < length xs" "mid < length xs" using that mid assms(2) by auto
    have ym: "ys ! mid = d ! a" using nth [OF kl(2)] that by auto
    show ?thesis
    proof (cases "k = a")
      case True
      then have "ys ! k = d ! mid" using nth [OF kl(1)] by simp
      moreover have "keyLess f (d ! mid) (d ! a)" using inv that True by auto
      ultimately show ?thesis using ym by (simp add: keyLess_def)
    next
      case False
      then have "ys ! k = d ! k" using nth [OF kl(1)] that by simp
      moreover have "keyLess f (d ! k) (d ! a)" using inv that False by auto
      ultimately show ?thesis using ym by (simp add: keyLess_def)
    qed
  qed
  have right: "f (ys ! mid) \<le> f (ys ! k)" if "mid < k \<and> k < b" for k
  proof -
    have kl: "k < length xs" "mid < length xs" using that mid assms(2) by auto
    have ym: "ys ! mid = d ! a" using nth [OF kl(2)] that mid by auto
    have "ys ! k = d ! k" using nth [OF kl(1)] that mid by simp
    moreover have "\<not> keyLess f (d ! k) (d ! a)" using inv that by auto
    ultimately show ?thesis using ym by (simp add: keyLess_def)
  qed
  show ?thesis using perm mid left right by blast
qed

lemma partitionEqual_func_props:
  assumes "a < b" and "b \<le> length xs" and "a \<le> pivot" and "pivot < b"
    and low: "\<forall>k. a \<le> k \<and> k < b \<longrightarrow> f (xs ! pivot) \<le> f (xs ! k)"
    and "partitionEqual_func (keyLess f) xs a b pivot = (ys, mid)"
  shows "perm_in a b xs ys \<and> a < mid \<and> mid \<le> b \<and>
         (\<forall>k. a \<le> k \<and> k < mid \<longrightarrow> f (ys ! k) = f (xs ! pivot)) \<and>
         (\<forall>k. mid \<le> k \<and> k < b \<longrightarrow> f (xs ! pivot) < f (ys ! k))"
proof -
  define d0 where "d0 = Swap xs a pivot"
  define A where "A = (\<lambda>x p. \<not> keyLess f p x)"
  obtain d i j where pl0: "partitionLoop (\<lambda>d i. \<not> keyLess f (d ! a) (d ! i))
      (\<lambda>d j. keyLess f (d ! a) (d ! j)) d0 (a + 1) (b - 1) = (d, i, j)"
    by (cases "partitionLoop (\<lambda>d i. \<not> keyLess f (d ! a) (d ! i))
      (\<lambda>d j. keyLess f (d ! a) (d ! j)) d0 (a + 1) (b - 1)")
  have res: "ys = d" "mid = i"
    using assms(6) pl0 by (simp_all add: partitionEqual_func_def Let_def d0_def)
  have pl: "partitionLoop (\<lambda>d i. A (d ! i) (d ! a)) (\<lambda>d j. \<not> A (d ! j) (d ! a))
      d0 (a + 1) (b - 1) = (d, i, j)"
    using pl0 by (simp add: A_def)
  have mid: "a < mid" "mid \<le> b" using partitionEqual_func_mid [OF assms(1,6)] by simp_all
  have p0: "perm_in a b xs d0"
    unfolding d0_def using assms by (intro perm_in_Swap) auto
  have inv: "perm_in (Suc a) b d0 d \<and> j < i \<and>
         (\<forall>k. a < k \<and> k < i \<longrightarrow> A (d ! k) (d ! a)) \<and>
         (\<forall>k. j < k \<and> k < b \<longrightarrow> \<not> A (d ! k) (d ! a))"
    using assms(1,2) by (intro partitionLoop_inv [OF _ _ _ _ _ pl]) (auto simp: d0_def)
  have p1: "perm_in a b d0 d" using inv by (auto intro: perm_in_mono)
  have perm: "perm_in a b xs ys"
    unfolding res using p0 p1 by (blast intro: perm_in_trans)
  have al: "a < length xs" using assms by simp
  have da: "d ! a = xs ! pivot"
  proof -
    have "d ! a = d0 ! a" using inv al by (intro perm_in_nth [of "Suc a" b]) (auto simp: d0_def)
    also have "\<dots> = xs ! pivot" unfolding d0_def using assms by (simp add: nth_Swap)
    finally show ?thesis .
  qed
  have lowd: "\<forall>k. a \<le> k \<and> k < b \<longrightarrow> f (xs ! pivot) \<le> f (ys ! k)"
    by (rule perm_in_all [where P = "\<lambda>x. f (xs ! pivot) \<le> f x", OF perm])
      (use assms(1,2) low in auto)
  have left: "f (ys ! k) = f (xs ! pivot)" if "a \<le> k \<and> k < mid" for k
  proof (cases "k = a")
    case True
    then show ?thesis using da res by simp
  next
    case False
    then have "A (d ! k) (d ! a)" using inv that res by auto
    then have "f (ys ! k) \<le> f (xs ! pivot)" using da res by (simp add: A_def keyLess_def)
    moreover have "f (xs ! pivot) \<le> f (ys ! k)" using lowd that mid by auto
    ultimately show ?thesis by simp
  qed
  have right: "f (xs ! pivot) < f (ys ! k)" if "mid \<le> k \<and> k < b" for k
  proof -
    have "\<not> A (d ! k) (d ! a)" using inv that res by auto
    then show ?thesis using da res by (simp add: A_def keyLess_def)
  qed
  show ?thesis using perm mid left right by blast
qed

lemma order2_func_in:
  "order2_func lessf xs a b s = (x, y, s') \<Longrightarrow> (x = a \<and> y = b) \<or> (x = b \<and> y = a)"
  by (auto simp: order2_func_def split: if_splits)

lemma median_func_in:
  assumes "median_func lessf xs a b c s = (m, s')"
  shows "m = a \<or> m = b \<or> m = c"
proof -
  obtain a1 b1 s1 where o1: "order2_func lessf xs a b s = (a1, b1, s1)"
    by (cases "order2_func lessf xs a b s")
  obtain b2 c2 s2 where o2: "order2_func lessf xs b1 c s1 = (b2, c2, s2)"
    by (cases "order2_func lessf xs b1 c s1")
  obtain a3 b3 s3 where o3: "order2_func lessf xs a1 b2 s2 = (a3, b3, s3)"
    by (cases "order2_func lessf xs a1 b2 s2")
  have "m = b3" using assms o1 o2 o3 by (simp add: median_func_def)
  then show ?thesis
    using order2_func_in [OF o1] order2_func_in [OF o2] order2_func_in [OF o3] by auto
qed

lemma choosePivot_func_range:
  assumes "a < b" and "choosePivot_func lessf xs a b = (p, h)"
  shows "a \<le> p \<and> p < b"
proof -
  define l where "l = b - a"
  define i where "i = a + l div 4 * 1"
  define j where "j = a + l div 4 * 2"
  define k where "k = a + l div 4 * 3"
  have l0: "0 < l" "a + l = b" using assms(1) by (simp_all add: l_def)
  have rng: "a \<le> i" "a \<le> j" "a \<le> k" "i < b" "j < b" "k < b"
    using l0 unfolding i_def j_def k_def by auto
  show ?thesis
  proof (cases "l \<ge> 8")
    case False
    then have "p = j"
      using assms(2) by (auto simp: choosePivot_func_def Let_def l_def j_def split: if_splits)
    then show ?thesis using rng by simp
  next
    case True
    show ?thesis
    proof (cases "l \<ge> 50")
      case False
      obtain m s where md: "median_func lessf xs i j k 0 = (m, s)"
        by (cases "median_func lessf xs i j k 0")
      have "p = m"
        using assms(2) True False md
        by (auto simp: choosePivot_func_def Let_def l_def i_def j_def k_def split: if_splits)
      then show ?thesis using median_func_in [OF md] rng by auto
    next
      case l50: True
      obtain i' s1 where m1: "medianAdjacent_func lessf xs i 0 = (i', s1)"
        by (cases "medianAdjacent_func lessf xs i 0")
      obtain j' s2 where m2: "medianAdjacent_func lessf xs j s1 = (j', s2)"
        by (cases "medianAdjacent_func lessf xs j s1")
      obtain k' s3 where m3: "medianAdjacent_func lessf xs k s2 = (k', s3)"
        by (cases "medianAdjacent_func lessf xs k s2")
      obtain m s where md: "median_func lessf xs i' j' k' s3 = (m, s)"
        by (cases "median_func lessf xs i' j' k' s3")
      have "p = m"
        using assms(2) True l50 m1 m2 m3 md
        by (auto simp: choosePivot_func_def Let_def l_def i_def j_def k_def split: if_splits)
      moreover have q: "12 \<le> l div 4" "l div 4 * 3 + 1 < l" using l50 by linarith+
      have ri: "a < i" "i + 1 < b" "a < j" "j + 1 < b" "a < k" "k + 1 < b"
        using q l0 unfolding i_def j_def k_def by linarith+
      have "i' = i - 1 \<or> i' = i \<or> i' = i + 1"
        using median_func_in [OF m1 [unfolded medianAdjacent_func_def]] .
      then have b1: "a \<le> i' \<and> i' < b" using ri by linarith
      have "j' = j - 1 \<or> j' = j \<or> j' = j + 1"
        using median_func_in [OF m2 [unfolded medianAdjacent_func_def]] .
      then have b2: "a \<le> j' \<and> j' < b" using ri by linarith
      have "k' = k - 1 \<or> k' = k \<or> k' = k + 1"
        using median_func_in [OF m3 [unfolded medianAdjacent_func_def]] .
      then have b3: "a \<le> k' \<and> k' < b" using ri by linarith
      ultimately show ?thesis using median_func_in [OF md] b1 b2 b3 by auto
    qed
  qed
qed


lemma lower_bounded_perm:
  assumes "lower_bounded f a b xs" and "perm_in a' b' xs ys" and "a \<le> a'" and "b' \<le> b"
    and "a \<le> b" and "b \<le> length xs"
  shows "lower_bounded f a b ys"
proof (cases "0 < a")
  case True
  have eq: "ys ! (a - 1) = xs ! (a - 1)"
    using assms True by (intro perm_in_nth [of a' b']) auto
  have "\<forall>k. a \<le> k \<and> k < b \<longrightarrow> f (xs ! (a - 1)) \<le> f (ys ! k)"
    by (rule perm_in_all [where P = "\<lambda>x. f (xs ! (a - 1)) \<le> f x", OF assms(2)])
      (use assms True in \<open>auto simp: lower_bounded_def\<close>)
  then show ?thesis using eq by (simp add: lower_bounded_def)
next
  case False
  then show ?thesis by (simp add: lower_bounded_def)
qed

lemma lower_bounded_sub: "lower_bounded f a b xs \<Longrightarrow> b' \<le> b \<Longrightarrow> lower_bounded f a b' xs"
  by (auto simp: lower_bounded_def)

lemma skipSorted_spec:
  "i \<le> skipSorted lessf xs b i \<and> (i \<le> b \<longrightarrow> skipSorted lessf xs b i \<le> b) \<and>
   (\<forall>k. i \<le> k \<and> k < skipSorted lessf xs b i \<longrightarrow> \<not> lessf (xs ! k) (xs ! (k - 1))) \<and>
   (skipSorted lessf xs b i < b \<longrightarrow>
      lessf (xs ! skipSorted lessf xs b i) (xs ! (skipSorted lessf xs b i - 1)))"
proof (induction lessf xs b i rule: skipSorted.induct)
  case (1 lessf xs b i)
  show ?case
  proof (cases "i < b \<and> \<not> lessf (xs ! i) (xs ! (i - 1))")
    case True
    then have res: "skipSorted lessf xs b i = skipSorted lessf xs b (i + 1)"
      by (subst skipSorted.simps) simp
    define r where "r = skipSorted lessf xs b (i + 1)"
    have ih: "i + 1 \<le> r" "i + 1 \<le> b \<longrightarrow> r \<le> b"
      "\<forall>k. i + 1 \<le> k \<and> k < r \<longrightarrow> \<not> lessf (xs ! k) (xs ! (k - 1))"
      "r < b \<longrightarrow> lessf (xs ! r) (xs ! (r - 1))"
      using "1.IH" [OF True] unfolding r_def by blast+
    have "\<not> lessf (xs ! k) (xs ! (k - 1))" if "i \<le> k" "k < r" for k
      using that ih(3) True by (cases "k = i") auto
    then show ?thesis unfolding res r_def [symmetric] using ih True by auto
  next
    case False
    then have res: "skipSorted lessf xs b i = i"
      by (subst skipSorted.simps) auto
    show ?thesis unfolding res using False by auto
  qed
qed

lemma sorted_in_adjacent:
  assumes "\<forall>k. a < k \<and> k < b \<longrightarrow> f (xs ! (k - 1)) \<le> f (xs ! k)"
  shows "sorted_in f a b xs"
  unfolding sorted_in_def
proof (intro allI impI)
  fix i j assume h: "a \<le> i \<and> i < j \<and> j < b"
  have "i < j \<Longrightarrow> j < b \<Longrightarrow> f (xs ! i) \<le> f (xs ! j)" for j
  proof (induction j)
    case 0
    then show ?case by simp
  next
    case (Suc j)
    have st: "f (xs ! j) \<le> f (xs ! Suc j)"
      using assms Suc.prems h by (metis diff_Suc_1 le_less_trans less_Suc_eq_le less_or_eq_imp_le not_less_eq)
    show ?case
    proof (cases "i = j")
      case True
      then show ?thesis using st by simp
    next
      case False
      then have "f (xs ! i) \<le> f (xs ! j)" using Suc by simp
      then show ?thesis using st by simp
    qed
  qed
  then show "f (xs ! i) \<le> f (xs ! j)" using h by simp
qed

lemma sorted_in_extend:
  assumes "sorted_in f a i xs" and "a < i"
    and "\<forall>k. i \<le> k \<and> k < i' \<longrightarrow> f (xs ! (k - 1)) \<le> f (xs ! k)"
  shows "sorted_in f a i' xs"
proof (rule sorted_in_adjacent, intro allI impI)
  fix k assume k: "a < k \<and> k < i'"
  show "f (xs ! (k - 1)) \<le> f (xs ! k)"
  proof (cases "k < i")
    case True
    then show ?thesis using assms(1) k unfolding sorted_in_def by auto
  next
    case False
    then show ?thesis using assms(3) k by auto
  qed
qed

lemma shiftLeft_insertShift: "shiftLeft lessf xs j = insertShift lessf xs 0 j"
proof (induction lessf xs j rule: shiftLeft.induct)
  case (1 lessf xs)
  then show ?case by (subst insertShift.simps) simp
next
  case (2 lessf xs j)
  then show ?case by (subst insertShift.simps) simp
qed

lemma insertShift_lower:
  assumes "a \<le> j" and "j < length xs"
    and "0 < a \<longrightarrow> (\<forall>k. a \<le> k \<and> k \<le> j \<longrightarrow> f (xs ! (a - 1)) \<le> f (xs ! k))"
  shows "insertShift (keyLess f) xs 0 j = insertShift (keyLess f) xs a j"
  using assms
proof (induction "keyLess f" xs a j rule: insertShift.induct)
  case (1 xs a j)
  show ?case
  proof (cases "j > a \<and> keyLess f (xs ! j) (xs ! (j - 1))")
    case True
    define ys where "ys = Swap xs j (j - 1)"
    have nth: "\<And>k. k < length xs \<Longrightarrow>
        ys ! k = (if k = j - 1 then xs ! j else if k = j then xs ! (j - 1) else xs ! k)"
      unfolding ys_def using "1.prems" True by (simp add: nth_Swap)
    have pre: "0 < a \<longrightarrow> (\<forall>k. a \<le> k \<and> k \<le> j - 1 \<longrightarrow> f (ys ! (a - 1)) \<le> f (ys ! k))"
    proof (intro impI allI)
      fix k assume a0: "0 < a" and k: "a \<le> k \<and> k \<le> j - 1"
      have "ys ! (a - 1) = xs ! (a - 1)" using nth [of "a - 1"] a0 True "1.prems" by auto
      moreover have "f (xs ! (a - 1)) \<le> f (ys ! k)"
        using nth [of k] k "1.prems" a0 True by auto
      ultimately show "f (ys ! (a - 1)) \<le> f (ys ! k)" by simp
    qed
    have "insertShift (keyLess f) ys 0 (j - 1) = insertShift (keyLess f) ys a (j - 1)"
      unfolding ys_def
      using "1.hyps" [OF True] True "1.prems" pre unfolding ys_def by auto
    moreover have "insertShift (keyLess f) xs 0 j = insertShift (keyLess f) ys 0 (j - 1)"
      unfolding ys_def using True by (subst insertShift.simps) auto
    moreover have "insertShift (keyLess f) xs a j = insertShift (keyLess f) ys a (j - 1)"
      unfolding ys_def using True by (subst insertShift.simps) auto
    ultimately show ?thesis by simp
  next
    case False
    have r1: "insertShift (keyLess f) xs a j = xs"
      using False by (subst insertShift.simps) auto
    have "\<not> (j > 0 \<and> keyLess f (xs ! j) (xs ! (j - 1)))"
    proof (cases "j > a")
      case True
      then show ?thesis using False by auto
    next
      case False
      then have "j = a" using "1.prems" by simp
      then show ?thesis using "1.prems"(3) by (auto simp: keyLess_def)
    qed
    then have r2: "insertShift (keyLess f) xs 0 j = xs"
      by (subst insertShift.simps) auto
    show ?thesis using r1 r2 by simp
  qed
qed

lemma shiftRight_perm:
  "0 < j \<Longrightarrow> b \<le> length xs \<Longrightarrow> perm_in (j - 1) b xs (shiftRight lessf xs b j)"
proof (induction lessf xs b j rule: shiftRight.induct)
  case (1 lessf xs b j)
  show ?case
  proof (cases "j < b \<and> lessf (xs ! j) (xs ! (j - 1))")
    case True
    have res: "shiftRight lessf xs b j = shiftRight lessf (Swap xs j (j - 1)) b (j + 1)"
      using True by (subst shiftRight.simps) simp
    have "perm_in (j - 1) b xs (Swap xs j (j - 1))"
      using True "1.prems" by (intro perm_in_Swap) auto
    moreover have "perm_in (j + 1 - 1) b (Swap xs j (j - 1))
        (shiftRight lessf (Swap xs j (j - 1)) b (j + 1))"
      using "1.IH" True "1.prems" by simp
    then have "perm_in (j - 1) b (Swap xs j (j - 1))
        (shiftRight lessf (Swap xs j (j - 1)) b (j + 1))"
      by (rule perm_in_mono) auto
    ultimately show ?thesis unfolding res by (rule perm_in_trans)
  next
    case False
    then have "shiftRight lessf xs b j = xs"
      by (subst shiftRight.simps) auto
    then show ?thesis by simp
  qed
qed


lemma sorted_in_cong:
  assumes "sorted_in f a b xs" and "\<forall>k. a \<le> k \<and> k < b \<longrightarrow> ys ! k = xs ! k"
  shows "sorted_in f a b ys"
  using assms unfolding sorted_in_def by auto

lemma partialInsertionSort_loop_props:
  assumes "a < i" and "i \<le> b" and "b \<le> length xs" and "sorted_in f a i xs"
    and "lower_bounded f a b xs"
    and "partialInsertionSort_loop (keyLess f) xs a b i steps = (ys, flag)"
  shows "perm_in a b xs ys \<and> (flag \<longrightarrow> sorted_in f a b ys)"
  using assms
proof (induction steps arbitrary: xs i)
  case 0
  then show ?case by simp
next
  case (Suc steps)
  define i1 where "i1 = skipSorted (keyLess f) xs b i"
  have spec: "i \<le> i1 \<and> (i \<le> b \<longrightarrow> i1 \<le> b) \<and>
      (\<forall>k. i \<le> k \<and> k < i1 \<longrightarrow> \<not> keyLess f (xs ! k) (xs ! (k - 1))) \<and>
      (i1 < b \<longrightarrow> keyLess f (xs ! i1) (xs ! (i1 - 1)))"
    unfolding i1_def by (rule skipSorted_spec)
  have sk: "i \<le> i1" "i1 \<le> b" using spec Suc.prems(2) by simp_all
  have sk3: "\<forall>k. i \<le> k \<and> k < i1 \<longrightarrow> f (xs ! (k - 1)) \<le> f (xs ! k)"
    using spec by (simp add: keyLess_def not_less)
  have sk4: "i1 < b \<longrightarrow> keyLess f (xs ! i1) (xs ! (i1 - 1))"
    using spec by simp
  have so: "sorted_in f a i1 xs"
    using Suc.prems(4,1) sk3 by (rule sorted_in_extend)
  show ?case
  proof (cases "i1 = b \<or> b - a < 50")
    case True
    then have "(ys, flag) = (xs, i1 = b)"
      using Suc.prems(6) by (auto simp: Let_def i1_def split: if_splits)
    then show ?thesis using so by auto
  next
    case False
    define d1 where "d1 = Swap xs i1 (i1 - 1)"
    define d2 where "d2 = (if i1 - a \<ge> 2 then shiftLeft (keyLess f) d1 (i1 - 1) else d1)"
    define d3 where "d3 = (if b - i1 \<ge> 2 then shiftRight (keyLess f) d2 b (i1 + 1) else d2)"
    have rec: "partialInsertionSort_loop (keyLess f) d3 a b i1 steps = (ys, flag)"
      using Suc.prems(6) False
      by (auto simp: Let_def i1_def d1_def d2_def d3_def split: if_splits)
    have bd: "a < i1" "i1 < b" "i1 < length xs" "a \<le> i1 - 1"
      using sk Suc.prems(1,3) False by auto
    have p1: "perm_in a b xs d1"
      unfolding d1_def using bd Suc.prems(3) by (intro perm_in_Swap) auto
    have len1: "length d1 = length xs" by (simp add: d1_def)
    have ab: "a \<le> b" using bd by simp
    have lb1: "lower_bounded f a b d1"
      by (rule lower_bounded_perm [OF Suc.prems(5) p1 le_refl le_refl ab Suc.prems(3)])
    have s1: "sorted_in f a (i1 - 1) d1"
    proof (rule sorted_in_cong [OF _ ])
      show "sorted_in f a (i1 - 1) xs" using so unfolding sorted_in_def by auto
      show "\<forall>k. a \<le> k \<and> k < i1 - 1 \<longrightarrow> d1 ! k = xs ! k"
        unfolding d1_def using bd by (auto simp: nth_Swap)
    qed
    have s2: "sorted_in f a i1 d2 \<and> perm_in a i1 d1 d2"
    proof (cases "i1 - a \<ge> 2")
      case True
      have lo: "0 < a \<longrightarrow> (\<forall>k. a \<le> k \<and> k \<le> i1 - 1 \<longrightarrow> f (d1 ! (a - 1)) \<le> f (d1 ! k))"
        using lb1 bd unfolding lower_bounded_def by auto
      have "shiftLeft (keyLess f) d1 (i1 - 1) = insertShift (keyLess f) d1 0 (i1 - 1)"
        by (rule shiftLeft_insertShift)
      also have "\<dots> = insertShift (keyLess f) d1 a (i1 - 1)"
        using bd len1 lo by (intro insertShift_lower) auto
      finally have "d2 = insertShift (keyLess f) d1 a (i1 - 1)"
        unfolding d2_def using True by simp
      moreover have "sorted_in f a (Suc (i1 - 1)) (insertShift (keyLess f) d1 a (i1 - 1)) \<and>
          perm_in a (Suc (i1 - 1)) d1 (insertShift (keyLess f) d1 a (i1 - 1))"
        using bd len1 s1 by (intro insertShift_sorted) auto
      ultimately show ?thesis using bd by simp
    next
      case False
      then have "i1 \<le> Suc a" by simp
      then show ?thesis unfolding d2_def using False by simp
    qed
    have len2: "length d2 = length xs" using perm_in_length [of a i1 d1 d2] s2 len1 by simp
    have p3: "perm_in i1 b d2 d3"
    proof (cases "b - i1 \<ge> 2")
      case True
      have "perm_in (i1 + 1 - 1) b d2 (shiftRight (keyLess f) d2 b (i1 + 1))"
        using Suc.prems(3) len2 by (intro shiftRight_perm) auto
      then show ?thesis unfolding d3_def using True by simp
    next
      case False
      then show ?thesis unfolding d3_def by simp
    qed
    have len3: "length d3 = length xs" using perm_in_length [OF p3] len2 by simp
    have s3: "sorted_in f a i1 d3"
    proof (rule sorted_in_cong)
      show "sorted_in f a i1 d2" using s2 by simp
      show "\<forall>k. a \<le> k \<and> k < i1 \<longrightarrow> d3 ! k = d2 ! k"
        using perm_in_nth [OF p3] bd len2 by auto
    qed
    have p13: "perm_in a b d1 d3"
    proof -
      have "perm_in a b d1 d2" using s2 bd by (auto intro: perm_in_mono)
      moreover have "perm_in a b d2 d3" using p3 bd by (auto intro: perm_in_mono)
      ultimately show ?thesis by (rule perm_in_trans)
    qed
    have p03: "perm_in a b xs d3" using p1 p13 by (rule perm_in_trans)
    have lb3: "lower_bounded f a b d3"
      by (rule lower_bounded_perm [OF Suc.prems(5) p03 le_refl le_refl ab Suc.prems(3)])
    have ih: "perm_in a b d3 ys \<and> (flag \<longrightarrow> sorted_in f a b ys)"
      using bd Suc.prems(3) len3 s3 lb3 rec by (intro Suc.IH [of i1 d3]) auto
    show ?thesis using ih p03 by (blast intro: perm_in_trans)
  qed
qed

lemma partialInsertionSort_func_props:
  assumes "a < b" and "b \<le> length xs" and "lower_bounded f a b xs"
    and "partialInsertionSort_func (keyLess f) xs a b = (ys, flag)"
  shows "perm_in a b xs ys \<and> (flag \<longrightarrow> sorted_in f a b ys)"
  using assms unfolding partialInsertionSort_func_def
  by (intro partialInsertionSort_loop_props [of a "a + 1" b xs f 5]) auto


lemma heap_atI:
  assumes "\<And>k. k = 2 * i + 1 \<or> k = 2 * i + 2 \<Longrightarrow> k < hi \<Longrightarrow>
             f (xs ! (first + k)) \<le> f (xs ! (first + i))"
  shows "heap_at f xs first hi i"
  unfolding heap_at_def
proof (intro conjI impI)
  assume "2 * i + 1 < hi"
  then show "f (xs ! (first + (2 * i + 1))) \<le> f (xs ! (first + i))"
    by (intro assms) auto
next
  assume "2 * i + 2 < hi"
  then show "f (xs ! (first + (2 * i + 2))) \<le> f (xs ! (first + i))"
    by (intro assms) auto
qed

lemma heap_atD:
  "heap_at f xs first hi i \<Longrightarrow> k = 2 * i + 1 \<or> k = 2 * i + 2 \<Longrightarrow> k < hi \<Longrightarrow>
   f (xs ! (first + k)) \<le> f (xs ! (first + i))"
  by (auto simp: heap_at_def)

lemma siftDown_loop_heap:
  assumes "lo \<le> r" and "first + hi \<le> length xs"
    and "\<forall>i. lo \<le> i \<and> i < hi \<and> i \<noteq> r \<longrightarrow> heap_at f xs first hi i"
    and "\<forall>i c. lo \<le> i \<and> (r = 2 * i + 1 \<or> r = 2 * i + 2) \<and> (c = 2 * r + 1 \<or> c = 2 * r + 2) \<and>
           c < hi \<longrightarrow> f (xs ! (first + c)) \<le> f (xs ! (first + i))"
  shows "(\<forall>i. lo \<le> i \<and> i < hi \<longrightarrow>
            heap_at f (siftDown_loop (keyLess f) xs hi first r) first hi i) \<and>
         perm_in (first + r) (first + hi) xs (siftDown_loop (keyLess f) xs hi first r)"
  using assms
proof (induction "keyLess f" xs hi first r rule: siftDown_loop.induct)
  case (1 xs hi first r)
  define c0 where "c0 = 2 * r + 1"
  define c where "c = (if c0 + 1 < hi \<and> keyLess f (xs ! (first + c0)) (xs ! (first + c0 + 1))
                       then c0 + 1 else c0)"
  have unf: "siftDown_loop (keyLess f) xs hi first r =
      (if c0 \<ge> hi then xs
       else if \<not> keyLess f (xs ! (first + r)) (xs ! (first + c)) then xs
       else siftDown_loop (keyLess f) (Swap xs (first + r) (first + c)) hi first c)"
    unfolding c0_def c_def by (subst siftDown_loop.simps) (simp only: Let_def)
  show ?case
  proof (cases "c0 \<ge> hi")
    case True
    then have res: "siftDown_loop (keyLess f) xs hi first r = xs"
      unfolding unf by simp
    have "heap_at f xs first hi r" using True by (intro heap_atI) (auto simp: c0_def)
    then show ?thesis unfolding res using "1.prems"(3) by auto
  next
    case False
    have cb: "c < hi" "r < c" "c = 2 * r + 1 \<or> c = 2 * r + 2"
      using False unfolding c_def c0_def by auto
    have mx: "f (xs ! (first + k)) \<le> f (xs ! (first + c))"
      if "k = 2 * r + 1 \<or> k = 2 * r + 2" "k < hi" for k
      using that False unfolding c_def c0_def keyLess_def by (auto simp: add.assoc)
    show ?thesis
    proof (cases "keyLess f (xs ! (first + r)) (xs ! (first + c))")
      case nl: False
      have res: "siftDown_loop (keyLess f) xs hi first r = xs"
        unfolding unf using False nl by simp
      have rc: "f (xs ! (first + c)) \<le> f (xs ! (first + r))"
        using nl by (simp add: keyLess_def not_less)
      have "heap_at f xs first hi r"
      proof (rule heap_atI)
        fix k assume "k = 2 * r + 1 \<or> k = 2 * r + 2" "k < hi"
        then have "f (xs ! (first + k)) \<le> f (xs ! (first + c))" by (rule mx)
        then show "f (xs ! (first + k)) \<le> f (xs ! (first + r))"
          using rc by (rule order_trans)
      qed
      then show ?thesis unfolding res using "1.prems"(3) by auto
    next
      case lt: True
      define ys where "ys = Swap xs (first + r) (first + c)"
      have res: "siftDown_loop (keyLess f) xs hi first r =
          siftDown_loop (keyLess f) ys hi first c"
        unfolding unf ys_def using False lt by simp
      have len: "length ys = length xs" by (simp add: ys_def)
      have nth: "\<And>k. k < hi \<Longrightarrow> ys ! (first + k) =
          (if k = c then xs ! (first + r) else if k = r then xs ! (first + c)
           else xs ! (first + k))"
        unfolding ys_def using cb "1.prems"(2) by (simp add: nth_Swap)
      have flt: "f (xs ! (first + r)) < f (xs ! (first + c))" using lt by (simp add: keyLess_def)
      have ex': "\<forall>i. lo \<le> i \<and> i < hi \<and> i \<noteq> c \<longrightarrow> heap_at f ys first hi i"
      proof (intro allI impI)
        fix i assume i: "lo \<le> i \<and> i < hi \<and> i \<noteq> c"
        show "heap_at f ys first hi i"
        proof (cases "i = r")
          case True
          have "f (ys ! (first + k)) \<le> f (ys ! (first + r))"
            if "k = 2 * r + 1 \<or> k = 2 * r + 2" "k < hi" for k
          proof (cases "k = c")
            case True
            then show ?thesis using nth [of c] nth [of r] cb flt by simp
          next
            case False
            then have "ys ! (first + k) = xs ! (first + k)" using nth [of k] that by auto
            then show ?thesis using mx [OF that] nth [of r] cb by simp
          qed
          then show ?thesis unfolding True by (rule heap_atI)
        next
          case False
          have yi: "ys ! (first + i) = xs ! (first + i)" using nth [of i] i False by simp
          have hx: "heap_at f xs first hi i" using "1.prems"(3) i False by auto
          have "f (ys ! (first + k)) \<le> f (xs ! (first + i))"
            if k: "k = 2 * i + 1 \<or> k = 2 * i + 2" "k < hi" for k
          proof -
            have kc: "k \<noteq> c" using k cb False by auto
            show ?thesis
            proof (cases "k = r")
              case True
              then have "ys ! (first + k) = xs ! (first + c)" using nth [of k] k kc by simp
              moreover have "f (xs ! (first + c)) \<le> f (xs ! (first + i))"
                using "1.prems"(4) i k True cb by auto
              ultimately show ?thesis by simp
            next
              case False
              then have "ys ! (first + k) = xs ! (first + k)" using nth [of k] k kc by simp
              then show ?thesis using heap_atD [OF hx k] by simp
            qed
          qed
          then show ?thesis using yi by (intro heap_atI) simp
        qed
      qed
      have gp': "\<forall>i k. lo \<le> i \<and> (c = 2 * i + 1 \<or> c = 2 * i + 2) \<and>
           (k = 2 * c + 1 \<or> k = 2 * c + 2) \<and> k < hi \<longrightarrow>
           f (ys ! (first + k)) \<le> f (ys ! (first + i))"
      proof (intro allI impI)
        fix i k
        assume h: "lo \<le> i \<and> (c = 2 * i + 1 \<or> c = 2 * i + 2) \<and>
           (k = 2 * c + 1 \<or> k = 2 * c + 2) \<and> k < hi"
        then have ir: "i = r" using cb by auto
        have "ys ! (first + k) = xs ! (first + k)" using nth [of k] h cb by auto
        moreover have "ys ! (first + r) = xs ! (first + c)" using nth [of r] cb by simp
        moreover have "heap_at f xs first hi c"
          using "1.prems"(3) cb "1.prems"(1) by auto
        then have "f (xs ! (first + k)) \<le> f (xs ! (first + c))"
          by (rule heap_atD) (use h in auto)
        ultimately show "f (ys ! (first + k)) \<le> f (ys ! (first + i))" using ir by simp
      qed
      have ih: "(\<forall>i. lo \<le> i \<and> i < hi \<longrightarrow>
            heap_at f (siftDown_loop (keyLess f) ys hi first c) first hi i) \<and>
         perm_in (first + c) (first + hi) ys (siftDown_loop (keyLess f) ys hi first c)"
        unfolding ys_def
      proof (rule "1.hyps" [of c0 c])
        show "c0 = 2 * r + 1" by (simp add: c0_def)
        show "\<not> hi \<le> c0" using False by simp
        show "c = (if c0 + 1 < hi \<and> keyLess f (xs ! (first + c0)) (xs ! (first + c0 + 1))
                   then c0 + 1 else c0)" by (simp add: c_def)
        show "\<not> \<not> keyLess f (xs ! (first + r)) (xs ! (first + c))" using lt by simp
        show "lo \<le> c" using cb "1.prems"(1) by simp
        show "first + hi \<le> length (Swap xs (first + r) (first + c))"
          using "1.prems"(2) by simp
        show "\<forall>i. lo \<le> i \<and> i < hi \<and> i \<noteq> c \<longrightarrow>
            heap_at f (Swap xs (first + r) (first + c)) first hi i"
          using ex' by (simp add: ys_def)
        show "\<forall>i ca. lo \<le> i \<and> (c = 2 * i + 1 \<or> c = 2 * i + 2) \<and>
            (ca = 2 * c + 1 \<or> ca = 2 * c + 2) \<and> ca < hi \<longrightarrow>
            f (Swap xs (first + r) (first + c) ! (first + ca))
              \<le> f (Swap xs (first + r) (first + c) ! (first + i))"
          using gp' by (simp add: ys_def)
      qed
      have "perm_in (first + r) (first + hi) xs ys"
        unfolding ys_def using cb "1.prems"(2) by (intro perm_in_Swap) auto
      moreover have "perm_in (first + r) (first + hi) ys (siftDown_loop (keyLess f) ys hi first c)"
        using ih cb by (auto intro: perm_in_mono)
      ultimately have "perm_in (first + r) (first + hi) xs (siftDown_loop (keyLess f) ys hi first c)"
        by (rule perm_in_trans)
      then show ?thesis unfolding res using ih by simp
    qed
  qed
qed


lemma siftDown_func_heap:
  assumes "first + hi \<le> length xs"
    and "\<forall>i. lo < i \<and> i < hi \<longrightarrow> heap_at f xs first hi i"
  shows "(\<forall>i. lo \<le> i \<and> i < hi \<longrightarrow> heap_at f (siftDown_func (keyLess f) xs lo hi first) first hi i) \<and>
         perm_in (first + lo) (first + hi) xs (siftDown_func (keyLess f) xs lo hi first)"
  unfolding siftDown_func_def
proof (rule siftDown_loop_heap)
  show "lo \<le> lo" by simp
  show "first + hi \<le> length xs" by (rule assms(1))
  show "\<forall>i. lo \<le> i \<and> i < hi \<and> i \<noteq> lo \<longrightarrow> heap_at f xs first hi i"
    using assms(2) by auto
  show "\<forall>i c. lo \<le> i \<and> (lo = 2 * i + 1 \<or> lo = 2 * i + 2) \<and> (c = 2 * lo + 1 \<or> c = 2 * lo + 2) \<and>
           c < hi \<longrightarrow> f (xs ! (first + c)) \<le> f (xs ! (first + i))"
    by auto
qed

lemma heapBuild_heap:
  assumes "first + hi \<le> length xs"
    and "\<forall>i. n < i \<and> i < hi \<longrightarrow> heap_at f xs first hi i"
  shows "(\<forall>i. i < hi \<longrightarrow> heap_at f (heapBuild (keyLess f) xs hi first n) first hi i) \<and>
         perm_in first (first + hi) xs (heapBuild (keyLess f) xs hi first n)"
  using assms
proof (induction n arbitrary: xs)
  case 0
  show ?case
    using siftDown_func_heap [OF "0.prems"(1), of 0 f] "0.prems"(2) by simp
next
  case (Suc n)
  define ys where "ys = siftDown_func (keyLess f) xs (Suc n) hi first"
  have s: "(\<forall>i. Suc n \<le> i \<and> i < hi \<longrightarrow> heap_at f ys first hi i) \<and>
         perm_in (first + Suc n) (first + hi) xs ys"
    unfolding ys_def using Suc.prems by (intro siftDown_func_heap) auto
  have len: "length ys = length xs" using s perm_in_length by blast
  have ih: "(\<forall>i. i < hi \<longrightarrow> heap_at f (heapBuild (keyLess f) ys hi first n) first hi i) \<and>
         perm_in first (first + hi) ys (heapBuild (keyLess f) ys hi first n)"
    using s Suc.prems(1) len by (intro Suc.IH) auto
  have "perm_in first (first + hi) xs ys" using s by (auto intro: perm_in_mono)
  then have "perm_in first (first + hi) xs (heapBuild (keyLess f) ys hi first n)"
    using ih by (blast intro: perm_in_trans)
  then show ?case using ih by (simp add: ys_def)
qed

lemma heap_root_max:
  assumes "\<forall>i. i < hi \<longrightarrow> heap_at f xs first hi i"
  shows "i < hi \<Longrightarrow> f (xs ! (first + i)) \<le> f (xs ! first)"
proof (induction i rule: less_induct)
  case (less i)
  show ?case
  proof (cases "i = 0")
    case True
    then show ?thesis by simp
  next
    case False
    define p where "p = (i - 1) div 2"
    have pi: "p < i" "p < hi" "i = 2 * p + 1 \<or> i = 2 * p + 2"
      using False less.prems unfolding p_def by auto
    have "heap_at f xs first hi p" using assms pi by simp
    then have "f (xs ! (first + i)) \<le> f (xs ! (first + p))"
      by (rule heap_atD) (use pi less.prems in auto)
    also have "\<dots> \<le> f (xs ! first)" using less.IH pi by simp
    finally show ?thesis .
  qed
qed

lemma heapPop_sorted:
  assumes "first + hi \<le> length xs" and "n \<le> hi"
    and "\<forall>i. i < n \<longrightarrow> heap_at f xs first n i"
    and "sorted_in f (first + n) (first + hi) xs"
    and "\<forall>p q. first \<le> p \<and> p < first + n \<and> first + n \<le> q \<and> q < first + hi \<longrightarrow>
           f (xs ! p) \<le> f (xs ! q)"
  shows "sorted_in f first (first + hi) (heapPop (keyLess f) xs first n) \<and>
         perm_in first (first + hi) xs (heapPop (keyLess f) xs first n)"
  using assms
proof (induction n arbitrary: xs)
  case 0
  then show ?case by simp
next
  case (Suc i)
  define ys where "ys = Swap xs first (first + i)"
  define zs where "zs = siftDown_func (keyLess f) ys 0 i first"
  have res: "heapPop (keyLess f) xs first (Suc i) = heapPop (keyLess f) zs first i"
    by (simp add: ys_def zs_def)
  have il: "first + i < length xs" "first < length xs" "i < hi" using Suc.prems(1,2) by auto
  have leny: "length ys = length xs" by (simp add: ys_def)
  have nthy: "\<And>k. k < length xs \<Longrightarrow>
      ys ! k = (if k = first + i then xs ! first else if k = first then xs ! (first + i)
                else xs ! k)"
    unfolding ys_def using il by (simp add: nth_Swap)
  have rootmax: "\<And>k. k < Suc i \<Longrightarrow> f (xs ! (first + k)) \<le> f (xs ! first)"
    using heap_root_max [of "Suc i" f xs first] Suc.prems(3) by blast
  have hy: "\<forall>k. 0 < k \<and> k < i \<longrightarrow> heap_at f ys first i k"
  proof (intro allI impI)
    fix k assume k: "0 < k \<and> k < i"
    have hx: "heap_at f xs first (Suc i) k" using Suc.prems(3) k by simp
    show "heap_at f ys first i k"
    proof (rule heap_atI)
      fix c assume c: "c = 2 * k + 1 \<or> c = 2 * k + 2" "c < i"
      have "ys ! (first + c) = xs ! (first + c)" using nthy [of "first + c"] c il k by auto
      moreover have "ys ! (first + k) = xs ! (first + k)" using nthy [of "first + k"] il k by auto
      moreover have "f (xs ! (first + c)) \<le> f (xs ! (first + k))"
        by (rule heap_atD [OF hx]) (use c in auto)
      ultimately show "f (ys ! (first + c)) \<le> f (ys ! (first + k))" by simp
    qed
  qed
  have sz: "(\<forall>k. 0 \<le> k \<and> k < i \<longrightarrow> heap_at f zs first i k) \<and>
         perm_in (first + 0) (first + i) ys zs"
    unfolding zs_def using il leny hy by (intro siftDown_func_heap) auto
  have pz: "perm_in first (first + i) ys zs" using sz by simp
  have lenz: "length zs = length xs" using perm_in_length [OF pz] leny by simp
  have zout: "\<And>k. first + i \<le> k \<Longrightarrow> k < length xs \<Longrightarrow> zs ! k = ys ! k"
    using perm_in_nth [OF pz] leny by auto
  have zin: "\<forall>k. first \<le> k \<and> k < first + i \<longrightarrow> f (zs ! k) \<le> f (xs ! first) \<and>
      (\<forall>q. first + Suc i \<le> q \<and> q < first + hi \<longrightarrow> f (zs ! k) \<le> f (xs ! q))"
  proof (rule perm_in_all [where P = "\<lambda>x. f x \<le> f (xs ! first) \<and>
      (\<forall>q. first + Suc i \<le> q \<and> q < first + hi \<longrightarrow> f x \<le> f (xs ! q))", OF pz])
    show "first \<le> first" "first + i \<le> first + i" "first \<le> first + i" by simp_all
    show "first + i \<le> length ys" using il leny by simp
    show "\<forall>k. first \<le> k \<and> k < first + i \<longrightarrow> f (ys ! k) \<le> f (xs ! first) \<and>
      (\<forall>q. first + Suc i \<le> q \<and> q < first + hi \<longrightarrow> f (ys ! k) \<le> f (xs ! q))"
    proof (intro allI impI)
      fix k assume k: "first \<le> k \<and> k < first + i"
      define e where "e = (if k = first then first + i else k)"
      have ye: "ys ! k = xs ! e" using nthy [of k] k il unfolding e_def by auto
      have eb: "first \<le> e" "e < first + Suc i" using k unfolding e_def by auto
      then obtain d where d: "e = first + d" "d < Suc i"
        by (metis add.commute le_add_diff_inverse2 less_diff_conv2 add_diff_cancel_left' nat_add_left_cancel_less le_Suc_ex)
      have "f (xs ! e) \<le> f (xs ! first)" using rootmax [of d] d by simp
      moreover have "\<forall>q. first + Suc i \<le> q \<and> q < first + hi \<longrightarrow> f (xs ! e) \<le> f (xs ! q)"
        using Suc.prems(5) eb by auto
      ultimately show "f (ys ! k) \<le> f (xs ! first) \<and>
        (\<forall>q. first + Suc i \<le> q \<and> q < first + hi \<longrightarrow> f (ys ! k) \<le> f (xs ! q))"
        using ye by simp
    qed
  qed
  have zq: "\<And>q. first + i \<le> q \<Longrightarrow> q < first + hi \<Longrightarrow>
      zs ! q = (if q = first + i then xs ! first else xs ! q)"
    using zout nthy Suc.prems(1) by auto
  have s2: "sorted_in f (first + i) (first + hi) zs"
    unfolding sorted_in_def
  proof (intro allI impI)
    fix p q assume pq: "first + i \<le> p \<and> p < q \<and> q < first + hi"
    show "f (zs ! p) \<le> f (zs ! q)"
    proof (cases "p = first + i")
      case True
      have "f (xs ! first) \<le> f (xs ! q)" using Suc.prems(5) pq True by auto
      then show ?thesis using zq [of p] zq [of q] pq True by simp
    next
      case False
      have "f (xs ! p) \<le> f (xs ! q)"
        using Suc.prems(4) pq False unfolding sorted_in_def by auto
      then show ?thesis using zq [of p] zq [of q] pq False by simp
    qed
  qed
  have c2: "\<forall>p q. first \<le> p \<and> p < first + i \<and> first + i \<le> q \<and> q < first + hi \<longrightarrow>
           f (zs ! p) \<le> f (zs ! q)"
  proof (intro allI impI)
    fix p q assume pq: "first \<le> p \<and> p < first + i \<and> first + i \<le> q \<and> q < first + hi"
    show "f (zs ! p) \<le> f (zs ! q)"
    proof (cases "q = first + i")
      case True
      then show ?thesis using zin pq zq [of q] by simp
    next
      case False
      then have "first + Suc i \<le> q" using pq by simp
      then show ?thesis using zin pq zq [of q] False by simp
    qed
  qed
  have ih: "sorted_in f first (first + hi) (heapPop (keyLess f) zs first i) \<and>
         perm_in first (first + hi) zs (heapPop (keyLess f) zs first i)"
    using Suc.prems(1,2) lenz sz s2 c2 by (intro Suc.IH) auto
  have "perm_in first (first + hi) xs ys"
    unfolding ys_def using il Suc.prems(1) by (intro perm_in_Swap) auto
  moreover have "perm_in first (first + hi) ys zs" using pz il by (auto intro: perm_in_mono)
  ultimately have "perm_in first (first + hi) xs zs" by (rule perm_in_trans)
  then have "perm_in first (first + hi) xs (heapPop (keyLess f) zs first i)"
    using ih by (blast intro: perm_in_trans)
  then show ?case unfolding res using ih by simp
qed

lemma heapSort_func_props:
  assumes "a \<le> b" and "b \<le> length xs"
  shows "sorted_in f a b (heapSort_func (keyLess f) xs a b) \<and>
         perm_in a b xs (heapSort_func (keyLess f) xs a b)"
proof -
  define hi where "hi = b - a"
  define ys where "ys = heapBuild (keyLess f) xs hi a ((hi - 1) div 2)"
  have ab: "a + hi = b" using assms(1) by (simp add: hi_def)
  have hb: "(\<forall>i. i < hi \<longrightarrow> heap_at f ys a hi i) \<and> perm_in a (a + hi) xs ys"
    unfolding ys_def
  proof (rule heapBuild_heap)
    show "a + hi \<le> length xs" using ab assms(2) by simp
    show "\<forall>i. (hi - 1) div 2 < i \<and> i < hi \<longrightarrow> heap_at f xs a hi i"
      by (intro allI impI heap_atI) auto
  qed
  have len: "length ys = length xs" using hb perm_in_length by blast
  have hp: "sorted_in f a (a + hi) (heapPop (keyLess f) ys a hi) \<and>
         perm_in a (a + hi) ys (heapPop (keyLess f) ys a hi)"
    using hb ab assms(2) len by (intro heapPop_sorted) auto
  have "perm_in a (a + hi) xs (heapPop (keyLess f) ys a hi)"
    using hb hp by (blast intro: perm_in_trans)
  then show ?thesis
    using hp ab by (simp add: heapSort_func_def Let_def hi_def ys_def)
qed

lemma pdqsort_loop_unfold:
  assumes "\<not> b - a \<le> 12" and "limit \<noteq> 0"
    and "d1 = (if \<not> wb then breakPatterns_func nxt xs a b else xs)"
    and "limit1 = (if \<not> wb then limit - 1 else limit)"
    and "pivot0 = fst (choosePivot_func lessf d1 a b)"
    and "hint0 = snd (choosePivot_func lessf d1 a b)"
    and "d2 = (if hint0 = decreasingHint then reverseRange_func d1 a b else d1)"
    and "pivot = (if hint0 = decreasingHint then (b - 1) - (pivot0 - a) else pivot0)"
    and "hint = (if hint0 = decreasingHint then increasingHint else hint0)"
    and "pis = (if wb \<and> wp \<and> hint = increasingHint then partialInsertionSort_func lessf d2 a b
          else (d2, False))"
    and "d3 = fst pis"
  shows "pdqsort_loop nxt lessf xs a b limit wb wp =
    (if snd pis then d3
     else if a > 0 \<and> \<not> lessf (d3 ! (a - 1)) (d3 ! pivot) then
       pdqsort_loop nxt lessf (fst (partitionEqual_func lessf d3 a b pivot))
         (snd (partitionEqual_func lessf d3 a b pivot)) b limit1 wb wp
     else
       (let pr = partition_func lessf d3 a b pivot;
            d4 = fst pr; mid = fst (snd pr); ap = snd (snd pr)
        in if mid - a < b - mid then
              pdqsort_loop nxt lessf (pdqsort_loop nxt lessf d4 a mid limit1 True True)
                (mid + 1) b limit1 (mid - a \<ge> (b - a) div 8) ap
            else
              pdqsort_loop nxt lessf (pdqsort_loop nxt lessf d4 (mid + 1) b limit1 True True)
                a mid limit1 (b - mid \<ge> (b - a) div 8) ap))"
  unfolding assms(3-11)
  by (subst pdqsort_loop.simps) (simp only: Let_def case_prod_beta if_distrib [of fst] if_distrib [of snd] fst_conv snd_conv if_False if_True assms(1,2))


lemma sorted_in_pivot:
  assumes "sorted_in f a mid ys" and "sorted_in f (Suc mid) b ys"
    and "\<forall>k. a \<le> k \<and> k < mid \<longrightarrow> f (ys ! k) \<le> f (ys ! mid)"
    and "\<forall>k. mid < k \<and> k < b \<longrightarrow> f (ys ! mid) \<le> f (ys ! k)"
  shows "sorted_in f a b ys"
  unfolding sorted_in_def
proof (intro allI impI)
  fix i j assume h: "a \<le> i \<and> i < j \<and> j < b"
  consider "j < mid" | "j = mid" | "i < mid" "mid < j" | "i = mid" | "mid < i" by linarith
  then show "f (ys ! i) \<le> f (ys ! j)"
  proof cases
    case 1
    then show ?thesis using assms(1) h unfolding sorted_in_def by auto
  next
    case 2
    then show ?thesis using assms(3) h by auto
  next
    case 3
    have "f (ys ! i) \<le> f (ys ! mid)" using assms(3) h 3 by auto
    also have "\<dots> \<le> f (ys ! j)" using assms(4) h 3 by auto
    finally show ?thesis .
  next
    case 4
    then show ?thesis using assms(4) h by auto
  next
    case 5
    then show ?thesis using assms(2) h unfolding sorted_in_def by auto
  qed
qed

lemma lower_bounded_cong:
  assumes "lower_bounded f a b xs" and "\<forall>k < b. ys ! k = xs ! k"
  shows "lower_bounded f a b ys"
  unfolding lower_bounded_def
proof (intro impI allI)
  fix k assume a0: "0 < a" and k: "a \<le> k \<and> k < b"
  then have "ys ! (a - 1) = xs ! (a - 1)" "ys ! k = xs ! k" using assms(2) by auto
  then show "f (ys ! (a - 1)) \<le> f (ys ! k)"
    using assms(1) a0 k unfolding lower_bounded_def by auto
qed

lemma pdqsort_loop_small:
  "b - a \<le> 12 \<Longrightarrow> pdqsort_loop nxt lessf xs a b limit wb wp = insertionSort_func lessf xs a b"
  by (subst pdqsort_loop.simps) (simp only: Let_def if_True)

lemma pdqsort_loop_heap:
  "\<not> b - a \<le> 12 \<Longrightarrow> limit = 0 \<Longrightarrow>
   pdqsort_loop nxt lessf xs a b limit wb wp = heapSort_func lessf xs a b"
  by (subst pdqsort_loop.simps) (simp only: Let_def if_True if_False simp_thms)

lemma sorted_join_equal:
  assumes ab: "a < mid" "mid \<le> b" "b \<le> length d4"
    and eq: "\<forall>k. a \<le> k \<and> k < mid \<longrightarrow> f (d4 ! k) = v"
    and gt: "\<forall>k. mid \<le> k \<and> k < b \<longrightarrow> v < f (d4 ! k)"
    and s: "sorted_in f mid b r" and p: "perm_in mid b d4 r"
  shows "sorted_in f a b r"
proof -
  have e: "\<forall>k. k < mid \<longrightarrow> r ! k = d4 ! k"
  proof (intro allI impI)
    fix k assume "k < mid"
    then show "r ! k = d4 ! k" using perm_in_nth [OF p, of k] ab by simp
  qed
  have g: "\<forall>k. mid \<le> k \<and> k < b \<longrightarrow> v < f (r ! k)"
    by (rule perm_in_all [OF p le_refl le_refl ab(2) ab(3), where P = "\<lambda>x. v < f x"]) (rule gt)
  show ?thesis
    unfolding sorted_in_def
  proof (intro allI impI)
    fix i j assume h: "a \<le> i \<and> i < j \<and> j < b"
    consider "j < mid" | "i < mid" "mid \<le> j" | "mid \<le> i" by linarith
    then show "f (r ! i) \<le> f (r ! j)"
    proof cases
      case 1
      then have "f (r ! i) = v" "f (r ! j) = v" using e eq h by auto
      then show ?thesis by simp
    next
      case 2
      then have "f (r ! i) = v" "v < f (r ! j)" using e eq g h by auto
      then show ?thesis by simp
    next
      case 3
      then show ?thesis using s h unfolding sorted_in_def by auto
    qed
  qed
qed

lemma sorted_join_left_first:
  assumes ab: "a \<le> mid" "mid < b" "b \<le> length d4"
    and lo: "\<forall>k. a \<le> k \<and> k < mid \<longrightarrow> f (d4 ! k) \<le> f (d4 ! mid)"
    and hi: "\<forall>k. Suc mid \<le> k \<and> k < b \<longrightarrow> f (d4 ! mid) \<le> f (d4 ! k)"
    and s1: "sorted_in f a mid r1" and p1: "perm_in a mid d4 r1"
    and s2: "sorted_in f (Suc mid) b r2" and p2: "perm_in (Suc mid) b r1 r2"
  shows "sorted_in f a b r2 \<and> perm_in a b d4 r2"
proof -
  have l1: "length r1 = length d4" using p1 by (rule perm_in_length)
  have m1: "r1 ! mid = d4 ! mid" using perm_in_nth [OF p1, of mid] ab by simp
  have m2: "r2 ! mid = r1 ! mid" using perm_in_nth [OF p2, of mid] ab l1 by simp
  have am: "a \<le> mid" by (rule ab(1))
  have ml: "mid \<le> length d4" using ab by simp
  have sb: "Suc mid \<le> b" using ab by simp
  have bl1: "b \<le> length r1" using ab l1 by simp
  have lo1: "\<forall>k. a \<le> k \<and> k < mid \<longrightarrow> f (r1 ! k) \<le> f (d4 ! mid)"
    by (rule perm_in_all [OF p1 le_refl le_refl am ml, where P = "\<lambda>x. f x \<le> f (d4 ! mid)"])
      (rule lo)
  have eq2: "\<forall>k. k < Suc mid \<longrightarrow> r2 ! k = r1 ! k"
  proof (intro allI impI)
    fix k assume "k < Suc mid"
    then show "r2 ! k = r1 ! k" using perm_in_nth [OF p2, of k] ab l1 by simp
  qed
  have lo2: "\<forall>k. a \<le> k \<and> k < mid \<longrightarrow> f (r2 ! k) \<le> f (r2 ! mid)"
    using lo1 eq2 m1 m2 by auto
  have hi1: "\<forall>k. Suc mid \<le> k \<and> k < b \<longrightarrow> f (d4 ! mid) \<le> f (r1 ! k)"
  proof (intro allI impI)
    fix k assume k: "Suc mid \<le> k \<and> k < b"
    then have "r1 ! k = d4 ! k" using perm_in_nth [OF p1, of k] ab by simp
    then show "f (d4 ! mid) \<le> f (r1 ! k)" using hi k by simp
  qed
  have hi2: "\<forall>k. Suc mid \<le> k \<and> k < b \<longrightarrow> f (d4 ! mid) \<le> f (r2 ! k)"
    by (rule perm_in_all [OF p2 le_refl le_refl sb bl1, where P = "\<lambda>x. f (d4 ! mid) \<le> f x"])
      (rule hi1)
  have hi3: "\<forall>k. mid < k \<and> k < b \<longrightarrow> f (r2 ! mid) \<le> f (r2 ! k)"
    using hi2 m1 m2 by auto
  have s1': "sorted_in f a mid r2"
    by (rule sorted_in_cong [OF s1]) (use eq2 in auto)
  have srt: "sorted_in f a b r2" by (rule sorted_in_pivot [OF s1' s2 lo2 hi3])
  have q1: "perm_in a b d4 r1" by (rule perm_in_mono [OF p1]) (use ab in auto)
  have q2: "perm_in a b r1 r2" by (rule perm_in_mono [OF p2]) (use ab in auto)
  show ?thesis using srt perm_in_trans [OF q1 q2] by simp
qed

lemma sorted_join_right_first:
  assumes ab: "a \<le> mid" "mid < b" "b \<le> length d4"
    and lo: "\<forall>k. a \<le> k \<and> k < mid \<longrightarrow> f (d4 ! k) \<le> f (d4 ! mid)"
    and hi: "\<forall>k. Suc mid \<le> k \<and> k < b \<longrightarrow> f (d4 ! mid) \<le> f (d4 ! k)"
    and s1: "sorted_in f (Suc mid) b r1" and p1: "perm_in (Suc mid) b d4 r1"
    and s2: "sorted_in f a mid r2" and p2: "perm_in a mid r1 r2"
  shows "sorted_in f a b r2 \<and> perm_in a b d4 r2"
proof -
  have l1: "length r1 = length d4" using p1 by (rule perm_in_length)
  have m1: "r1 ! mid = d4 ! mid" using perm_in_nth [OF p1, of mid] ab by simp
  have m2: "r2 ! mid = r1 ! mid" using perm_in_nth [OF p2, of mid] ab l1 by simp
  have am: "a \<le> mid" by (rule ab(1))
  have ml1: "mid \<le> length r1" using ab l1 by simp
  have sb: "Suc mid \<le> b" using ab by simp
  have bl: "b \<le> length d4" by (rule ab(3))
  have hi1: "\<forall>k. Suc mid \<le> k \<and> k < b \<longrightarrow> f (d4 ! mid) \<le> f (r1 ! k)"
    by (rule perm_in_all [OF p1 le_refl le_refl sb bl, where P = "\<lambda>x. f (d4 ! mid) \<le> f x"])
      (rule hi)
  have eq2: "\<forall>k. mid \<le> k \<and> k < b \<longrightarrow> r2 ! k = r1 ! k"
  proof (intro allI impI)
    fix k assume "mid \<le> k \<and> k < b"
    then show "r2 ! k = r1 ! k" using perm_in_nth [OF p2, of k] ab l1 by simp
  qed
  have hi3: "\<forall>k. mid < k \<and> k < b \<longrightarrow> f (r2 ! mid) \<le> f (r2 ! k)"
    using hi1 eq2 m1 m2 by auto
  have lo1: "\<forall>k. a \<le> k \<and> k < mid \<longrightarrow> f (r1 ! k) \<le> f (d4 ! mid)"
  proof (intro allI impI)
    fix k assume k: "a \<le> k \<and> k < mid"
    then have "r1 ! k = d4 ! k" using perm_in_nth [OF p1, of k] ab by simp
    then show "f (r1 ! k) \<le> f (d4 ! mid)" using lo k by simp
  qed
  have lo2: "\<forall>k. a \<le> k \<and> k < mid \<longrightarrow> f (r2 ! k) \<le> f (d4 ! mid)"
    by (rule perm_in_all [OF p2 le_refl le_refl am ml1, where P = "\<lambda>x. f x \<le> f (d4 ! mid)"])
      (rule lo1)
  have lo3: "\<forall>k. a \<le> k \<and> k < mid \<longrightarrow> f (r2 ! k) \<le> f (r2 ! mid)"
    using lo2 m1 m2 by auto
  have s1': "sorted_in f (Suc mid) b r2"
    by (rule sorted_in_cong [OF s1]) (use eq2 in auto)
  have srt: "sorted_in f a b r2" by (rule sorted_in_pivot [OF s2 s1' lo3 hi3])
  have q1: "perm_in a b d4 r1" by (rule perm_in_mono [OF p1]) (use ab in auto)
  have q2: "perm_in a b r1 r2" by (rule perm_in_mono [OF p2]) (use ab in auto)
  show ?thesis using srt perm_in_trans [OF q1 q2] by simp
qed

lemma pdqsort_loop_props:
  assumes "a \<le> b" and "b \<le> length xs" and "lower_bounded f a b xs"
  shows "sorted_in f a b (pdqsort_loop nxt (keyLess f) xs a b limit wb wp) \<and>
         perm_in a b xs (pdqsort_loop nxt (keyLess f) xs a b limit wb wp)"
  using assms
proof (induction "b - a" arbitrary: xs a b limit wb wp rule: less_induct)
  case less
  note ab = less.prems(1) and bl = less.prems(2) and lb = less.prems(3)
  show ?case
  proof (cases "b - a \<le> 12")
    case True
    show ?thesis
      unfolding pdqsort_loop_small [OF True]
      using insertionSort_func_props [OF ab bl, of f] by simp
  next
    case big: False
    show ?thesis
    proof (cases "limit = 0")
      case True
      show ?thesis
        unfolding pdqsort_loop_heap [OF big True]
        using heapSort_func_props [OF ab bl, of f] by simp
    next
      case lim: False
      define d1 where "d1 = (if \<not> wb then breakPatterns_func nxt xs a b else xs)"
      define limit1 where "limit1 = (if \<not> wb then limit - 1 else limit)"
      define pivot0 where "pivot0 = fst (choosePivot_func (keyLess f) d1 a b)"
      define hint0 where "hint0 = snd (choosePivot_func (keyLess f) d1 a b)"
      define d2 where "d2 = (if hint0 = decreasingHint then reverseRange_func d1 a b else d1)"
      define pivot where
        "pivot = (if hint0 = decreasingHint then (b - 1) - (pivot0 - a) else pivot0)"
      define hint where "hint = (if hint0 = decreasingHint then increasingHint else hint0)"
      define pis where
        "pis = (if wb \<and> wp \<and> hint = increasingHint
                then partialInsertionSort_func (keyLess f) d2 a b else (d2, False))"
      define d3 where "d3 = fst pis"
      note unf = pdqsort_loop_unfold [OF big lim d1_def limit1_def pivot0_def hint0_def
          d2_def pivot_def hint_def pis_def d3_def]
      have altb: "a < b" using big by simp
      have p1: "perm_in a b xs d1"
        unfolding d1_def using breakPatterns_func_perm [OF ab bl, of nxt] by simp
      have len1: "length d1 = length xs" using p1 by (rule perm_in_length)
      have cpe: "choosePivot_func (keyLess f) d1 a b = (pivot0, hint0)"
        by (simp add: pivot0_def hint0_def)
      have cp: "a \<le> pivot0 \<and> pivot0 < b" by (rule choosePivot_func_range [OF altb cpe])
      have pv: "a \<le> pivot \<and> pivot < b" unfolding pivot_def using cp by auto
      have bl1: "b \<le> length d1" using bl len1 by simp
      have p2: "perm_in a b d1 d2"
        unfolding d2_def using reverseRange_func_perm [OF altb bl1] by simp
      have p12: "perm_in a b xs d2" by (rule perm_in_trans [OF p1 p2])
      have len2: "length d2 = length xs" using p12 by (rule perm_in_length)
      have bl2: "b \<le> length d2" using bl len2 by simp
      have lb2: "lower_bounded f a b d2"
        by (rule lower_bounded_perm [OF lb p12 le_refl le_refl ab bl])
      have p3s: "perm_in a b d2 d3 \<and> (snd pis \<longrightarrow> sorted_in f a b d3)"
      proof (cases "wb \<and> wp \<and> hint = increasingHint")
        case True
        then have e: "partialInsertionSort_func (keyLess f) d2 a b = (d3, snd pis)"
          unfolding d3_def pis_def by simp
        show ?thesis by (rule partialInsertionSort_func_props [OF altb bl2 lb2 e])
      next
        case False
        have "pis = (d2, False)" unfolding pis_def by (simp only: False if_False)
        then show ?thesis unfolding d3_def by simp
      qed
      have p23: "perm_in a b d2 d3" using p3s by simp
      have p13: "perm_in a b xs d3" by (rule perm_in_trans [OF p12 p23])
      have len3: "length d3 = length xs" using p13 by (rule perm_in_length)
      have bl3: "b \<le> length d3" using bl len3 by simp
      have lb3: "lower_bounded f a b d3"
        by (rule lower_bounded_perm [OF lb p13 le_refl le_refl ab bl])
      show ?thesis
      proof (cases "snd pis")
        case True
        have "pdqsort_loop nxt (keyLess f) xs a b limit wb wp = d3"
          unfolding unf using True by simp
        then show ?thesis using p3s p13 True by simp
      next
        case ns: False
        show ?thesis
        proof (cases "a > 0 \<and> \<not> keyLess f (d3 ! (a - 1)) (d3 ! pivot)")
          case eqc: True
          define d4 where "d4 = fst (partitionEqual_func (keyLess f) d3 a b pivot)"
          define mid where "mid = snd (partitionEqual_func (keyLess f) d3 a b pivot)"
          have pe: "partitionEqual_func (keyLess f) d3 a b pivot = (d4, mid)"
            by (simp add: d4_def mid_def)
          have res: "pdqsort_loop nxt (keyLess f) xs a b limit wb wp =
                     pdqsort_loop nxt (keyLess f) d4 mid b limit1 wb wp"
            unfolding unf d4_def mid_def using ns eqc by simp
          have low: "\<forall>k. a \<le> k \<and> k < b \<longrightarrow> f (d3 ! pivot) \<le> f (d3 ! k)"
          proof (intro allI impI)
            fix k assume k: "a \<le> k \<and> k < b"
            have "f (d3 ! pivot) \<le> f (d3 ! (a - 1))"
              using eqc unfolding keyLess_def by (simp add: not_less)
            also have "\<dots> \<le> f (d3 ! k)" using lb3 eqc k unfolding lower_bounded_def by simp
            finally show "f (d3 ! pivot) \<le> f (d3 ! k)" .
          qed
          have pa: "a \<le> pivot" and pb: "pivot < b" using pv by simp_all
          note props = partitionEqual_func_props [OF altb bl3 pa pb low pe]
          have p34: "perm_in a b d3 d4" using props by simp
          have amid: "a < mid" and midb: "mid \<le> b" using props by simp_all
          have eqs: "\<forall>k. a \<le> k \<and> k < mid \<longrightarrow> f (d4 ! k) = f (d3 ! pivot)"
            using props by simp
          have gts: "\<forall>k. mid \<le> k \<and> k < b \<longrightarrow> f (d3 ! pivot) < f (d4 ! k)"
            using props by simp
          have len4: "length d4 = length d3" using p34 by (rule perm_in_length)
          have bl4: "b \<le> length d4" using bl3 len4 by simp
          have lb4: "lower_bounded f mid b d4"
            unfolding lower_bounded_def
          proof (intro allI impI)
            fix k assume "0 < mid" and k: "mid \<le> k \<and> k < b"
            have "f (d4 ! (mid - 1)) = f (d3 ! pivot)" using eqs amid by simp
            moreover have "f (d3 ! pivot) < f (d4 ! k)" using gts k by simp
            ultimately show "f (d4 ! (mid - 1)) \<le> f (d4 ! k)" by simp
          qed
          have dec: "b - mid < b - a" using amid altb by simp
          have ih: "sorted_in f mid b (pdqsort_loop nxt (keyLess f) d4 mid b limit1 wb wp) \<and>
                    perm_in mid b d4 (pdqsort_loop nxt (keyLess f) d4 mid b limit1 wb wp)"
            by (rule less.hyps [OF dec midb bl4 lb4])
          have s: "sorted_in f a b (pdqsort_loop nxt (keyLess f) d4 mid b limit1 wb wp)"
            using sorted_join_equal [OF amid midb bl4 eqs gts] ih by simp
          have q: "perm_in a b d4 (pdqsort_loop nxt (keyLess f) d4 mid b limit1 wb wp)"
            by (rule perm_in_mono [of mid b]) (use ih amid in simp_all)
          show ?thesis
            unfolding res using s perm_in_trans [OF perm_in_trans [OF p13 p34] q] by simp
        next
          case neq: False
          define d4 where "d4 = fst (partition_func (keyLess f) d3 a b pivot)"
          define mid where "mid = fst (snd (partition_func (keyLess f) d3 a b pivot))"
          define ap where "ap = snd (snd (partition_func (keyLess f) d3 a b pivot))"
          have pe: "partition_func (keyLess f) d3 a b pivot = (d4, mid, ap)"
            by (simp add: d4_def mid_def ap_def)
          have pa: "a \<le> pivot" and pb: "pivot < b" using pv by simp_all
          note props = partition_func_props [OF altb bl3 pa pb pe]
          have p34: "perm_in a b d3 d4" using props by simp
          have amid: "a \<le> mid" and midb: "mid < b" using props by simp_all
          have lo: "\<forall>k. a \<le> k \<and> k < mid \<longrightarrow> f (d4 ! k) \<le> f (d4 ! mid)"
            using props by (simp add: less_imp_le)
          have hi: "\<forall>k. Suc mid \<le> k \<and> k < b \<longrightarrow> f (d4 ! mid) \<le> f (d4 ! k)"
            using props by (simp add: Suc_le_eq)
          have len4: "length d4 = length d3" using p34 by (rule perm_in_length)
          have bl4: "b \<le> length d4" using bl3 len4 by simp
          have p14: "perm_in a b xs d4" by (rule perm_in_trans [OF p13 p34])
          have lb4: "lower_bounded f a b d4"
            by (rule lower_bounded_perm [OF lb p14 le_refl le_refl ab bl])
          have dec1: "mid - a < b - a" using amid midb by simp
          have dec2: "b - Suc mid < b - a" using amid midb by simp
          have sb: "Suc mid \<le> b" using midb by simp
          have mb: "mid \<le> b" using midb by simp
          have ml4: "mid \<le> length d4" using bl4 midb by simp
          show ?thesis
          proof (cases "mid - a < b - mid")
            case True
            define r1 where "r1 = pdqsort_loop nxt (keyLess f) d4 a mid limit1 True True"
            define r2 where "r2 = pdqsort_loop nxt (keyLess f) r1 (Suc mid) b limit1
                                    (mid - a \<ge> (b - a) div 8) ap"
            have res: "pdqsort_loop nxt (keyLess f) xs a b limit wb wp = r2"
              unfolding unf Let_def d4_def [symmetric] mid_def [symmetric] ap_def [symmetric]
                r2_def r1_def
              by (simp only: ns neq True if_True if_False Suc_eq_plus1 [symmetric])
            have ih1: "sorted_in f a mid r1 \<and> perm_in a mid d4 r1"
              unfolding r1_def
              by (rule less.hyps [OF dec1 amid ml4 lower_bounded_sub [OF lb4 mb]])
            have l1: "length r1 = length d4" using ih1 perm_in_length [of a mid d4 r1] by simp
            have bl5: "b \<le> length r1" using bl4 l1 by simp
            have lb5: "lower_bounded f (Suc mid) b r1"
              unfolding lower_bounded_def
            proof (intro allI impI)
              fix k assume k: "Suc mid \<le> k \<and> k < b"
              have "r1 ! mid = d4 ! mid" using perm_in_nth [of a mid d4 r1 mid] ih1 ml4 midb bl4
                by simp
              moreover have "r1 ! k = d4 ! k" using perm_in_nth [of a mid d4 r1 k] ih1 k bl4
                by simp
              ultimately show "f (r1 ! (Suc mid - 1)) \<le> f (r1 ! k)" using hi k by simp
            qed
            have ih2: "sorted_in f (Suc mid) b r2 \<and> perm_in (Suc mid) b r1 r2"
              unfolding r2_def by (rule less.hyps [OF dec2 sb bl5 lb5])
            have "sorted_in f a b r2 \<and> perm_in a b d4 r2"
              using sorted_join_left_first [OF amid midb bl4 lo hi, of r1 r2] ih1 ih2 by simp
            then show ?thesis
              unfolding res using perm_in_trans [OF p14] by simp
          next
            case False
            define r1 where "r1 = pdqsort_loop nxt (keyLess f) d4 (Suc mid) b limit1 True True"
            define r2 where "r2 = pdqsort_loop nxt (keyLess f) r1 a mid limit1
                                    (b - mid \<ge> (b - a) div 8) ap"
            have res: "pdqsort_loop nxt (keyLess f) xs a b limit wb wp = r2"
              unfolding unf Let_def d4_def [symmetric] mid_def [symmetric] ap_def [symmetric]
                r2_def r1_def
              by (simp only: ns neq False if_True if_False Suc_eq_plus1 [symmetric])
            have lb4': "lower_bounded f (Suc mid) b d4"
              unfolding lower_bounded_def using hi by simp
            have ih1: "sorted_in f (Suc mid) b r1 \<and> perm_in (Suc mid) b d4 r1"
              unfolding r1_def by (rule less.hyps [OF dec2 sb bl4 lb4'])
            have l1: "length r1 = length d4" using ih1 perm_in_length [of "Suc mid" b d4 r1] by simp
            have ml5: "mid \<le> length r1" using ml4 l1 by simp
            have lb5: "lower_bounded f a mid r1"
            proof (rule lower_bounded_cong [OF lower_bounded_sub [OF lb4 mb]])
              show "\<forall>k<mid. r1 ! k = d4 ! k"
              proof (intro allI impI)
                fix k assume "k < mid"
                then show "r1 ! k = d4 ! k"
                  using perm_in_nth [of "Suc mid" b d4 r1 k] ih1 ml4 by simp
              qed
            qed
            have ih2: "sorted_in f a mid r2 \<and> perm_in a mid r1 r2"
              unfolding r2_def by (rule less.hyps [OF dec1 amid ml5 lb5])
            have "sorted_in f a b r2 \<and> perm_in a b d4 r2"
              using sorted_join_right_first [OF amid midb bl4 lo hi, of r1 r2] ih1 ih2 by simp
            then show ?thesis
              unfolding res using perm_in_trans [OF p14] by simp
          qed
        qed
      qed
    qed
  qed
qed

lemma lower_bounded_zero [simp]: "lower_bounded f 0 b xs"
  by (simp add: lower_bounded_def)

lemma sorted_in_whole:
  assumes "sorted_in f 0 (length ys) ys"
  shows "sorted (map f ys)"
  unfolding sorted_iff_nth_mono_less
  using assms by (auto simp: sorted_in_def)

lemma sort_Slice_sorted: "sorted (map f (sort_Slice nxt (keyLess f) xs))"
proof -
  define ys where "ys = sort_Slice nxt (keyLess f) xs"
  have e: "ys = pdqsort_loop nxt (keyLess f) xs 0 (length xs) (bitsLen (length xs)) True True"
    unfolding ys_def sort_Slice_def pdqsort_func_def Let_def by (rule refl)
  have pr: "sorted_in f 0 (length xs) ys \<and> perm_in 0 (length xs) xs ys"
    unfolding e by (rule pdqsort_loop_props) simp_all
  then have "length ys = length xs" by (simp add: perm_in_def)
  then have "sorted_in f 0 (length ys) ys" using pr by simp
  then show ?thesis unfolding ys_def [symmetric] by (rule sorted_in_whole)
qed

lemma sort_Slice_mset: "mset (sort_Slice nxt (keyLess f) xs) = mset xs"
proof -
  have "perm_in 0 (length xs) xs
          (pdqsort_loop nxt (keyLess f) xs 0 (length xs) (bitsLen (length xs)) True True)"
    using pdqsort_loop_props [of 0 "length xs" xs f nxt "bitsLen (length xs)" True True]
    by simp
  then show ?thesis
    unfolding sort_Slice_def pdqsort_func_def Let_def by (rule perm_in_mset)
qed

lemma sort_Slice_stable_small:
  assumes "length xs \<le> 12"
  shows "filter (\<lambda>x. f x = k) (sort_Slice nxt (keyLess f) xs) = filter (\<lambda>x. f x = k) xs"
proof -
  have s: "length xs - 0 \<le> 12" using assms by simp
  show ?thesis
    unfolding sort_Slice_def pdqsort_func_def Let_def pdqsort_loop_small [OF s]
    using insertionSort_func_props [of 0 "length xs" xs f k] by simp
qed

section \<open>Filter engine: soundness and order\<close>

lemma filterLoop_filter:
  "filterLoop ms c n r v acc = acc @ filter (satisfiesConstraints c n r v) ms"
  by (induction ms arbitrary: acc) (auto simp: satisfiesConstraints_def)

text \<open>
  C7. \<^verbatim>\<open>filterModels\<close> keeps exactly the candidates that satisfy every active
  constraint (budget when \<open>B > 0\<close>, context when \<open>C > 0\<close>, reasoning and vision when
  required), so every survivor has cost \<open>\<le> B\<close> after a budget filter and context
  window \<open>\<ge> C\<close> after a context filter; the output is a subsequence of the input
  in the input's order, and its entries are entries of the input, unchanged.
\<close>

theorem filterModels_sound:
  "filterModels ms B C r v = filter (satisfiesConstraints B C r v) ms \<and>
   (\<forall>mm \<in> set (filterModels ms B C r v).
      mm \<in> set ms \<and>
      (B > 0 \<longrightarrow> CostPer1MIn (model mm) \<le> B) \<and>
      (C > 0 \<longrightarrow> ContextWindow (model mm) \<ge> C) \<and>
      (r \<longrightarrow> CanReason (model mm)) \<and>
      (v \<longrightarrow> SupportsImages (model mm))) \<and>
   subseq (filterModels ms B C r v) ms"
proof -
  have eq: "filterModels ms B C r v = filter (satisfiesConstraints B C r v) ms"
    by (simp add: filterModels_def filterLoop_filter)
  have snd: "\<forall>mm \<in> set (filter (satisfiesConstraints B C r v) ms).
      mm \<in> set ms \<and>
      (B > 0 \<longrightarrow> CostPer1MIn (model mm) \<le> B) \<and>
      (C > 0 \<longrightarrow> ContextWindow (model mm) \<ge> C) \<and>
      (r \<longrightarrow> CanReason (model mm)) \<and>
      (v \<longrightarrow> SupportsImages (model mm))"
    by (auto simp: satisfiesConstraints_def)
  have sub: "subseq (filter (satisfiesConstraints B C r v) ms) ms"
    by simp
  show ?thesis
    unfolding eq using snd sub by blast
qed

theorem filterModels_sound_witness:
  "filterModels [\<lparr>model = modelA, provider = providerA, score = 0\<rparr>,
                 \<lparr>model = modelB, provider = providerA, score = 0\<rparr>] 1 150000 True False
     = [\<lparr>model = modelB, provider = providerA, score = 0\<rparr>] \<and>
   (0::real) < 1 \<and> CostPer1MIn modelB \<le> 1 \<and> (0::int) < 150000 \<and>
   ContextWindow modelB \<ge> 150000 \<and> CanReason modelB"
  using filterModels_sound
    [of "[\<lparr>model = modelA, provider = providerA, score = 0\<rparr>,
          \<lparr>model = modelB, provider = providerA, score = 0\<rparr>]" 1 150000 True False]
  by (simp add: satisfiesConstraints_def modelA_def modelB_def)

section \<open>Simple scoring policy\<close>

text \<open>
  C9. Under the simple policy of \<^verbatim>\<open>scoreModels\<close>, with input cost and the two
  capability flags equal, a candidate with context window \<open>\<ge> 200000\<close> scores at
  least as much as one with context window in \<open>[100000, 200000)\<close>.
\<close>

theorem simpleScore_context_monotone:
  assumes "CostPer1MIn a = CostPer1MIn b"
    and "CanReason a = CanReason b"
    and "SupportsImages a = SupportsImages b"
    and "ContextWindow a \<ge> 200000"
    and "100000 \<le> ContextWindow b" and "ContextWindow b < 200000"
  shows "simpleScore a \<ge> simpleScore b"
  using assms by (simp add: simpleScore_def Let_def)

theorem simpleScore_context_monotone_witness:
  "simpleScore (modelB\<lparr>CanReason := False, SupportsImages := True, CostPer1MIn := 2.5\<rparr>)
     \<ge> simpleScore modelA \<and>
   ContextWindow modelB \<ge> 200000 \<and> 100000 \<le> ContextWindow modelA \<and>
   ContextWindow modelA < 200000"
  using simpleScore_context_monotone
    [of "modelB\<lparr>CanReason := False, SupportsImages := True, CostPer1MIn := 2.5\<rparr>" modelA]
  by (simp add: modelA_def modelB_def)

section \<open>Cost estimator\<close>

lemma findInModels_mem: "findInModels lib ms n = Some m \<Longrightarrow> m \<in> set ms"
  by (induction ms) (auto split: if_splits)

lemma findModel_mem:
  "findModel lib ps n = Some (m, p) \<Longrightarrow> p \<in> set ps \<and> m \<in> set (Models p)"
  by (induction ps) (auto split: option.splits dest: findInModels_mem)

text \<open>
  C2 (as amended). Every \<^verbatim>\<open>costResult\<close> that \<^verbatim>\<open>calculateCost\<close> returns has total
  cost equal to input cost plus output cost; when the token counts are
  non-negative, the cached ratio lies in \<open>[0, 1]\<close> and the catalog's prices are
  non-negative, the three costs are non-negative.
\<close>

theorem calculateCost_nonneg:
  assumes res: "calculateCost lib ps n i out ratio = Some r"
  shows "TotalCost r = InputCost r + OutputCost r \<and>
    (0 \<le> i \<and> 0 \<le> out \<and> 0 \<le> ratio \<and> ratio \<le> 1 \<and>
     (\<forall>p \<in> set ps. \<forall>m \<in> set (Models p).
        0 \<le> CostPer1MIn m \<and> 0 \<le> CostPer1MOut m \<and> 0 \<le> CostPer1MInCached m)
     \<longrightarrow> 0 \<le> InputCost r \<and> 0 \<le> OutputCost r \<and> 0 \<le> TotalCost r)"
proof -
  from res obtain m p where f: "findModel lib ps n = Some (m, p)"
    by (auto simp: calculateCost_def split: option.splits)
  have mem: "p \<in> set ps" "m \<in> set (Models p)"
    using findModel_mem [OF f] by simp_all
  have ic: "InputCost r = real_of_int i * (1 - ratio) * CostPer1MIn m / 1000000 +
      real_of_int i * ratio * CostPer1MInCached m / 1000000"
    and oc: "OutputCost r = real_of_int out * CostPer1MOut m / 1000000"
    and tc: "TotalCost r = InputCost r + OutputCost r"
    using res f by (auto simp: calculateCost_def Let_def)
  have nonneg: "0 \<le> InputCost r \<and> 0 \<le> OutputCost r \<and> 0 \<le> TotalCost r"
    if h: "0 \<le> i" "0 \<le> out" "0 \<le> ratio" "ratio \<le> 1"
      and prices: "\<forall>p \<in> set ps. \<forall>m \<in> set (Models p).
        0 \<le> CostPer1MIn m \<and> 0 \<le> CostPer1MOut m \<and> 0 \<le> CostPer1MInCached m"
  proof -
    have pm: "0 \<le> CostPer1MIn m" "0 \<le> CostPer1MOut m" "0 \<le> CostPer1MInCached m"
      using prices mem by auto
    have "0 \<le> real_of_int i * (1 - ratio) * CostPer1MIn m"
      using h pm by simp
    moreover have "0 \<le> real_of_int i * ratio * CostPer1MInCached m"
      using h pm by simp
    ultimately have a: "0 \<le> InputCost r"
      unfolding ic by simp
    have b: "0 \<le> OutputCost r"
      unfolding oc using h pm by simp
    show ?thesis using a b tc by simp
  qed
  show ?thesis using tc nonneg by blast
qed

theorem calculateCost_nonneg_witness:
  "calculateCost ascii_strings [providerA] ''model-a'' 1000 500 0.5 =
     Some \<lparr> cr_Model = ''Model A'', cr_Provider = ''Provider A'',
       InputCost = 0.001875, OutputCost = 0.005, TotalCost = 0.006875 \<rparr> \<and>
   (0.006875::real) = 0.001875 + 0.005 \<and> (0::real) \<le> 0.001875 \<and> (0::real) \<le> 0.005 \<and>
   (0::real) \<le> 0.006875"
proof -
  have c: "calculateCost ascii_strings [providerA] ''model-a'' 1000 500 0.5 =
     Some \<lparr> cr_Model = ''Model A'', cr_Provider = ''Provider A'',
       InputCost = 0.001875, OutputCost = 0.005, TotalCost = 0.006875 \<rparr>"
    by (simp add: calculateCost_def providerA_def modelA_def modelB_def ascii_strings_def
        lowerChar_def Contains_def Let_def)
  show ?thesis
    using calculateCost_nonneg [OF c] c by simp
qed

text \<open>
  C2 as stated fails: \<^verbatim>\<open>--cached 3\<close> is accepted (the flag is read without a range
  check) and makes the uncached token count negative, so the input cost of
  model A for 1000 input tokens is negative.
\<close>

theorem calculateCost_negative_counterexample:
  "map_option InputCost (calculateCost ascii_strings [providerA] ''model-a'' 1000 500 3) =
     Some (- 0.00125)"
  by (simp add: calculateCost_def providerA_def modelA_def modelB_def ascii_strings_def
      lowerChar_def Contains_def Let_def)

text \<open>
  C3. For the model and provider that the lookup resolves, \<^verbatim>\<open>calculateCost\<close> bills
  \<open>cachedRatio * inputTokens\<close> at the cached input rate and
  \<open>(1 - cachedRatio) * inputTokens\<close> at the standard input rate, bills every output
  token at the standard output rate (the cached ratio does not occur in the output
  cost), and returns their sum as the total. For model A (cost-in 2.50, cost-out
  10, cached-in 1.25 per 1M), 1000 input tokens, 500 output tokens and cached
  ratio 0.5 it returns input cost 0.001875, output cost 0.005, total 0.006875.
\<close>

theorem calculateCost_formula:
  "(findModel lib ps n = Some (m, p) \<longrightarrow>
      calculateCost lib ps n i out ratio =
        Some \<lparr> cr_Model = Name m, cr_Provider = ProviderName p,
          InputCost = (ratio * real_of_int i) * (CostPer1MInCached m / 1000000) +
                      ((1 - ratio) * real_of_int i) * (CostPer1MIn m / 1000000),
          OutputCost = real_of_int out * (CostPer1MOut m / 1000000),
          TotalCost = ((ratio * real_of_int i) * (CostPer1MInCached m / 1000000) +
                       ((1 - ratio) * real_of_int i) * (CostPer1MIn m / 1000000)) +
                      real_of_int out * (CostPer1MOut m / 1000000) \<rparr>) \<and>
   calculateCost ascii_strings [providerA] ''model-a'' 1000 500 0.5 =
     Some \<lparr> cr_Model = ''Model A'', cr_Provider = ''Provider A'',
       InputCost = 0.001875, OutputCost = 0.005, TotalCost = 0.006875 \<rparr>"
proof -
  have gen: "calculateCost lib ps n i out ratio =
        Some \<lparr> cr_Model = Name m, cr_Provider = ProviderName p,
          InputCost = (ratio * real_of_int i) * (CostPer1MInCached m / 1000000) +
                      ((1 - ratio) * real_of_int i) * (CostPer1MIn m / 1000000),
          OutputCost = real_of_int out * (CostPer1MOut m / 1000000),
          TotalCost = ((ratio * real_of_int i) * (CostPer1MInCached m / 1000000) +
                       ((1 - ratio) * real_of_int i) * (CostPer1MIn m / 1000000)) +
                      real_of_int out * (CostPer1MOut m / 1000000) \<rparr>"
    if "findModel lib ps n = Some (m, p)"
    using that by (simp add: calculateCost_def Let_def algebra_simps)
  have ex: "calculateCost ascii_strings [providerA] ''model-a'' 1000 500 0.5 =
     Some \<lparr> cr_Model = ''Model A'', cr_Provider = ''Provider A'',
       InputCost = 0.001875, OutputCost = 0.005, TotalCost = 0.006875 \<rparr>"
    by (simp add: calculateCost_def providerA_def modelA_def modelB_def ascii_strings_def
        lowerChar_def Contains_def Let_def)
  show ?thesis using gen ex by blast
qed

theorem calculateCost_formula_witness:
  "findModel ascii_strings [providerA] ''MODEL-B'' = Some (modelB, providerA) \<and>
   calculateCost ascii_strings [providerA] ''MODEL-B'' 2000000 1000000 0 =
     Some \<lparr> cr_Model = ''Model B'', cr_Provider = ''Provider A'',
       InputCost = 1, OutputCost = 1.5, TotalCost = 2.5 \<rparr>"
proof -
  have f: "findModel ascii_strings [providerA] ''MODEL-B'' = Some (modelB, providerA)"
    by code_simp
  have "calculateCost ascii_strings [providerA] ''MODEL-B'' 2000000 1000000 0 =
     Some \<lparr> cr_Model = ''Model B'', cr_Provider = ''Provider A'',
       InputCost = 1, OutputCost = 1.5, TotalCost = 2.5 \<rparr>"
    using calculateCost_formula
      [of ascii_strings "[providerA]" "''MODEL-B''" modelB providerA 2000000 1000000 0] f
    by (simp add: modelB_def providerA_def)
  then show ?thesis using f by simp
qed

section \<open>Batch mode\<close>

lemma batchLoop_map_filter:
  "batchLoop lib ps scs acc = acc @ List.map_filter (scenarioCost lib ps) scs"
  by (induction scs arbitrary: acc) (auto simp: List.map_filter_simps split: option.splits)

text \<open>
  C4. \<^verbatim>\<open>processBatch\<close> resolves every scenario on its own: the results are the
  cost results of exactly the scenarios whose lookup succeeds, in scenario order,
  and a scenario whose lookup fails (\<^verbatim>\<open>calculateCost\<close> returns \<^verbatim>\<open>nil\<close>) is skipped.
  A two-entry batch with one unknown model displays exactly the one result of the
  known model, whichever entry comes first.
\<close>

theorem processBatch_isolation:
  "batchLoop lib ps scs [] = List.map_filter (scenarioCost lib ps) scs \<and>
   (scenarioCost lib ps s = None) = (findModel lib ps (sc_Model s) = None) \<and>
   (scenarioCost lib ps known = Some r \<and> scenarioCost lib ps unknown = None \<longrightarrow>
      processBatch lib ps [known, unknown] = Displayed [r] \<and>
      processBatch lib ps [unknown, known] = Displayed [r])"
proof -
  have a: "batchLoop lib ps scs [] = List.map_filter (scenarioCost lib ps) scs"
    by (simp add: batchLoop_map_filter)
  have b: "(scenarioCost lib ps s = None) = (findModel lib ps (sc_Model s) = None)"
    by (simp add: calculateCost_def Let_def split: option.splits)
  have c: "processBatch lib ps [known, unknown] = Displayed [r] \<and>
      processBatch lib ps [unknown, known] = Displayed [r]"
    if "scenarioCost lib ps known = Some r" "scenarioCost lib ps unknown = None"
    using that by (simp add: processBatch_def)
  show ?thesis using a b c by blast
qed

theorem processBatch_isolation_witness:
  "scenarioCost ascii_strings [providerA]
     \<lparr>sc_Model = ''model-a'', InputTokens = 1000, OutputTokens = 500, CachedRatio = 0.5\<rparr>
     = Some \<lparr> cr_Model = ''Model A'', cr_Provider = ''Provider A'',
         InputCost = 0.001875, OutputCost = 0.005, TotalCost = 0.006875 \<rparr> \<and>
   scenarioCost ascii_strings [providerA]
     \<lparr>sc_Model = ''no-such-model'', InputTokens = 10, OutputTokens = 10, CachedRatio = 0\<rparr>
     = None \<and>
   processBatch ascii_strings [providerA]
     [\<lparr>sc_Model = ''no-such-model'', InputTokens = 10, OutputTokens = 10, CachedRatio = 0\<rparr>,
      \<lparr>sc_Model = ''model-a'', InputTokens = 1000, OutputTokens = 500, CachedRatio = 0.5\<rparr>]
     = Displayed [\<lparr> cr_Model = ''Model A'', cr_Provider = ''Provider A'',
         InputCost = 0.001875, OutputCost = 0.005, TotalCost = 0.006875 \<rparr>]"
proof -
  have k: "scenarioCost ascii_strings [providerA]
     \<lparr>sc_Model = ''model-a'', InputTokens = 1000, OutputTokens = 500, CachedRatio = 0.5\<rparr>
     = Some \<lparr> cr_Model = ''Model A'', cr_Provider = ''Provider A'',
         InputCost = 0.001875, OutputCost = 0.005, TotalCost = 0.006875 \<rparr>"
    by (simp add: calculateCost_def providerA_def modelA_def modelB_def ascii_strings_def
        lowerChar_def Contains_def Let_def)
  have u: "scenarioCost ascii_strings [providerA]
     \<lparr>sc_Model = ''no-such-model'', InputTokens = 10, OutputTokens = 10, CachedRatio = 0\<rparr>
     = None"
    by (simp add: calculateCost_def providerA_def modelA_def modelB_def ascii_strings_def
        lowerChar_def Contains_def Let_def)
  show ?thesis
    using processBatch_isolation [of ascii_strings "[providerA]" "[]" "undefined"
        "\<lparr>sc_Model = ''model-a'', InputTokens = 1000, OutputTokens = 500, CachedRatio = 0.5\<rparr>"
        _
        "\<lparr>sc_Model = ''no-such-model'', InputTokens = 10, OutputTokens = 10, CachedRatio = 0\<rparr>"]
      k u by simp
qed

section \<open>Session tracker\<close>

lemma sendMessage_fails_iff:
  "(\<exists>err. sendMessage mt call s = Inl err) =
   (case call \<lparr> req_Model = ID (cs_model s), req_Messages = messages s,
                 req_MaxTokens = (if mt > 0 then mt
                    else if DefaultMaxTokens (cs_model s) > 0 then DefaultMaxTokens (cs_model s)
                    else 0) \<rparr> of
      Inl e \<Rightarrow> True | Inr resp \<Rightarrow> Choices resp = [])"
  by (simp add: sendMessage_def Let_def split: sum.splits)

text \<open>
  C6. In \<^verbatim>\<open>runChatLoop\<close> the user message is appended before the completion call
  (the request carries the history with the new user message last). When the call
  fails, the history and the token and cost totals after the exchange are those
  before it: the whole session is unchanged. The loop then goes on with the next
  input, from the unchanged session.
\<close>

theorem exchange_failure_rollback:
  assumes "sendMessage mt call
             (s\<lparr>messages := messages s @ [\<lparr>Role = ChatMessageRoleUser, Content = input\<rparr>]\<rparr>)
           = Inl err"
  shows "exchange mt call s input = s \<and>
    (TrimSpace lib l = input \<and> input \<noteq> [] \<and> \<not> HasPrefix input ''/'' \<and> api k = call \<longrightarrow>
       runChatLoop lib mt api k (Line l # rest) s = runChatLoop lib mt api (Suc k) rest s)"
proof -
  have a: "exchange mt call s input = s"
    using assms by (simp add: exchange_def Let_def)
  have b: "runChatLoop lib mt api k (Line l # rest) s = runChatLoop lib mt api (Suc k) rest s"
    if "TrimSpace lib l = input" "input \<noteq> []" "\<not> HasPrefix input ''/''" "api k = call"
    using that a by (simp add: Let_def)
  show ?thesis using a b by blast
qed

theorem exchange_failure_rollback_witness:
  "sendMessage 0 failingCall
     (session0\<lparr>messages := messages session0 @
        [\<lparr>Role = ChatMessageRoleUser, Content = ''next''\<rparr>]\<rparr>) =
     Inl ''API call failed: connection refused'' \<and>
   exchange 0 failingCall session0 ''next'' = session0 \<and>
   runChatLoop ascii_strings 0 (\<lambda>k. failingCall) 0 [Line '' next '', Line ''/cost''] session0 =
     runChatLoop ascii_strings 0 (\<lambda>k. failingCall) (Suc 0) [Line ''/cost''] session0 \<and>
   runChatLoop ascii_strings 0 (\<lambda>k. failingCall) (Suc 0) [Line ''/cost''] session0 =
     (session0, Goodbye)"
proof -
  have a: "sendMessage 0 failingCall
     (session0\<lparr>messages := messages session0 @
        [\<lparr>Role = ChatMessageRoleUser, Content = ''next''\<rparr>]\<rparr>) =
     Inl ''API call failed: connection refused''"
    by (simp add: sendMessage_def failingCall_def)
  have b: "TrimSpace ascii_strings '' next '' = ''next''"
    by (simp add: ascii_strings_def isSpaceChar_def)
  have c: "\<not> HasPrefix ''next'' ''/''" by (simp add: HasPrefix_def)
  have d: "runChatLoop ascii_strings 0 (\<lambda>k. failingCall) (Suc 0) [Line ''/cost''] session0 =
     (session0, Goodbye)"
    by (simp add: ascii_strings_def isSpaceChar_def HasPrefix_def handleCommand_def
        lowerChar_def)
  show ?thesis
    using exchange_failure_rollback
            [OF a, of ascii_strings "'' next ''" "\<lambda>k. failingCall" 0 "[Line ''/cost'']"]
          a b c d
    by simp
qed

text \<open>
  C10. \<^verbatim>\<open>/clear\<close> cuts the history down to its leading system message (or to
  nothing when the first message is not a system message) and \<^verbatim>\<open>/cost\<close> changes
  nothing; neither changes \<open>totalTokens\<close> or \<open>totalCost\<close>, and both let the loop go
  on.
\<close>

theorem handleCommand_clear_cost_frame:
  "(ToLower lib cmd = ''/clear'' \<longrightarrow>
      handleCommand lib s cmd =
        (s\<lparr>messages := (if messages s \<noteq> [] \<and> Role (hd (messages s)) = ChatMessageRoleSystem
                          then [hd (messages s)] else [])\<rparr>, True) \<and>
      length (messages (fst (handleCommand lib s cmd))) \<le> 1 \<and>
      totalTokens (fst (handleCommand lib s cmd)) = totalTokens s \<and>
      totalCost (fst (handleCommand lib s cmd)) = totalCost s) \<and>
   (ToLower lib cmd = ''/cost'' \<longrightarrow> handleCommand lib s cmd = (s, True))"
proof -
  have t1: "take 1 (messages s) = [hd (messages s)]" if "messages s \<noteq> []"
    using that by (cases "messages s") simp_all
  have h0: "messages s ! 0 = hd (messages s)" if "messages s \<noteq> []"
    using that by (simp add: hd_conv_nth)
  have clear: "handleCommand lib s cmd =
        (s\<lparr>messages := (if messages s \<noteq> [] \<and> Role (hd (messages s)) = ChatMessageRoleSystem
                          then [hd (messages s)] else [])\<rparr>, True)"
    if "ToLower lib cmd = ''/clear''"
    using that t1 h0 by (auto simp: handleCommand_def Let_def)
  have cost: "handleCommand lib s cmd = (s, True)" if "ToLower lib cmd = ''/cost''"
    using that by (simp add: handleCommand_def Let_def)
  show ?thesis using clear cost by simp
qed

theorem handleCommand_clear_cost_frame_witness:
  "ToLower ascii_strings ''/clear'' = ''/clear'' \<and>
   handleCommand ascii_strings session0 ''/clear'' =
     (session0\<lparr>messages := [\<lparr> Role = ChatMessageRoleSystem, Content = ''Be brief.'' \<rparr>]\<rparr>,
      True) \<and>
   totalTokens (fst (handleCommand ascii_strings session0 ''/clear'')) = 42 \<and>
   totalCost (fst (handleCommand ascii_strings session0 ''/clear'')) = 0.001 \<and>
   ToLower ascii_strings ''/cost'' = ''/cost'' \<and>
   handleCommand ascii_strings session0 ''/cost'' = (session0, True)"
proof -
  have a: "ToLower ascii_strings ''/clear'' = ''/clear''"
    by (simp add: ascii_strings_def lowerChar_def)
  have b: "ToLower ascii_strings ''/cost'' = ''/cost''"
    by (simp add: ascii_strings_def lowerChar_def)
  have c: "messages session0 \<noteq> [] \<and> Role (hd (messages session0)) = ChatMessageRoleSystem \<and>
           hd (messages session0) = \<lparr> Role = ChatMessageRoleSystem, Content = ''Be brief.'' \<rparr> \<and>
           totalTokens session0 = 42 \<and> totalCost session0 = 0.001"
    by (simp add: session0_def)
  show ?thesis
    using handleCommand_clear_cost_frame [of ascii_strings "''/clear''" session0]
          handleCommand_clear_cost_frame [of ascii_strings "''/cost''" session0]
          a b c
    by simp
qed

section \<open>Requirement wizard\<close>

lemma requirementScore_weightedPolicy: "requirementScore req m = weightedPolicy req m"
  by (simp add: requirementScore_def weightedPolicy_def budgetRule_def contextRule_def
      reasoningRule_def visionRule_def Let_def)

lemma handleEnter_keeps_allModels:
  assumes "handleEnter nxt m = Inr (m', c)" and "step m \<noteq> stepVision"
  shows "allModels m' = allModels m"
  using assms
  by (cases "step m")
    (auto simp: handleEnter_def Let_def setupContextList_def setupReasoningList_def
      setupVisionList_def split: if_splits)

text \<open>
  C5. The confirm in \<open>stepVision\<close> is the transition into \<open>stepResults\<close>, and it
  runs \<^verbatim>\<open>calculateScores\<close> once: the candidate list of the new state is the ranking
  of the whole candidate list of the wizard, every entry scored by the
  requirement-weighted policy (base 100 and the budget, context, reasoning and
  vision rules, each appending its label to the reasons). The confirms of the
  earlier steps leave the candidate list as it is, so the list scored is the
  original one, not a filtered part of it.
\<close>

theorem wizard_scoring_pass:
  "(step m = stepVision \<and> index (list m) < length (choices m) \<longrightarrow>
      (\<exists>m'. handleEnter nxt m = Inr (m', NoCmd) \<and> step m' = stepResults \<and>
         allModels m' =
           sort_Slice nxt (\<lambda>x y. ms_score x > ms_score y)
             (map (scoreOne (requirements m')) (allModels m)))) \<and>
   (step m \<noteq> stepVision \<and> handleEnter nxt m = Inr (m1, c) \<longrightarrow> allModels m1 = allModels m) \<and>
   scoreOne req mm =
     mm\<lparr>ms_score := fst (weightedPolicy req (ms_model mm)),
        reasons := snd (weightedPolicy req (ms_model mm))\<rparr>"
proof -
  have a: "\<exists>m'. handleEnter nxt m = Inr (m', NoCmd) \<and> step m' = stepResults \<and>
         allModels m' =
           sort_Slice nxt (\<lambda>x y. ms_score x > ms_score y)
             (map (scoreOne (requirements m')) (allModels m))"
    if "step m = stepVision" "index (list m) < length (choices m)"
    using that
    by (simp add: handleEnter_def Let_def setupResultsList_def calculateScores_def)
  have b: "allModels m1 = allModels m"
    if "step m \<noteq> stepVision" "handleEnter nxt m = Inr (m1, c)"
    using handleEnter_keeps_allModels that by blast
  have c: "scoreOne req mm =
     mm\<lparr>ms_score := fst (weightedPolicy req (ms_model mm)),
        reasons := snd (weightedPolicy req (ms_model mm))\<rparr>"
    by (simp add: scoreOne_def requirementScore_weightedPolicy split: prod.splits)
  show ?thesis using a b c by blast
qed

theorem wizard_scoring_pass_witness:
  "step wizardVision = stepVision \<and>
   index (list wizardVision) < length (choices wizardVision) \<and>
   (\<exists>m'. handleEnter xorshift_Next wizardVision = Inr (m', NoCmd) \<and> step m' = stepResults \<and>
      allModels m' =
        sort_Slice xorshift_Next (\<lambda>x y. ms_score x > ms_score y)
          (map (scoreOne (requirements m')) (allModels wizardVision))) \<and>
   step (initialModel [msA, msB]) \<noteq> stepVision \<and>
   handleEnter xorshift_Next (initialModel [msA, msB]) =
     Inr (setupContextList ((initialModel [msA, msB])\<lparr>step := stepContext\<rparr>), NoCmd) \<and>
   allModels (setupContextList ((initialModel [msA, msB])\<lparr>step := stepContext\<rparr>)) =
     allModels (initialModel [msA, msB]) \<and>
   scoreOne \<lparr> budget = 1, contextSize = 100000, reasoning = True, vision = True \<rparr> msA =
     msA\<lparr>ms_score := - 5,
         reasons := [''Over budget'', ''Meets context requirement'', ''No reasoning'',
                     ''Has vision'']\<rparr>"
proof -
  have a: "step wizardVision = stepVision \<and>
           index (list wizardVision) < length (choices wizardVision)"
    by (simp add: wizardVision_def setupVisionList_def initialModel_def newList_def)
  have b: "step (initialModel [msA, msB]) \<noteq> stepVision" by (simp add: initialModel_def)
  have c: "handleEnter xorshift_Next (initialModel [msA, msB]) =
     Inr (setupContextList ((initialModel [msA, msB])\<lparr>step := stepContext\<rparr>), NoCmd)"
    by (simp add: handleEnter_def initialModel_def newList_def Let_def parseBudget_def)
  have d: "fst (weightedPolicy \<lparr> budget = 1, contextSize = 100000, reasoning = True,
                  vision = True \<rparr> (ms_model msA)) = - 5"
    by (simp add: weightedPolicy_def budgetRule_def contextRule_def reasoningRule_def
        visionRule_def msA_def modelA_def)
  have e: "snd (weightedPolicy \<lparr> budget = 1, contextSize = 100000, reasoning = True,
                  vision = True \<rparr> (ms_model msA)) =
           [''Over budget'', ''Meets context requirement'', ''No reasoning'', ''Has vision'']"
    by (simp add: weightedPolicy_def budgetRule_def contextRule_def reasoningRule_def
        visionRule_def msA_def modelA_def)
  note t1 = wizard_scoring_pass [of wizardVision xorshift_Next]
  note t2 = wizard_scoring_pass
      [of "initialModel [msA, msB]" xorshift_Next
          "setupContextList ((initialModel [msA, msB])\<lparr>step := stepContext\<rparr>)" NoCmd
          "\<lparr> budget = 1, contextSize = 100000, reasoning = True, vision = True \<rparr>" msA]
  have p1: "\<exists>m'. handleEnter xorshift_Next wizardVision = Inr (m', NoCmd) \<and>
      step m' = stepResults \<and>
      allModels m' =
        sort_Slice xorshift_Next (\<lambda>x y. ms_score x > ms_score y)
          (map (scoreOne (requirements m')) (allModels wizardVision))"
    using t1 a by blast
  have p2: "allModels (setupContextList ((initialModel [msA, msB])\<lparr>step := stepContext\<rparr>)) =
     allModels (initialModel [msA, msB])"
    using t2 b c by blast
  have p3: "scoreOne \<lparr> budget = 1, contextSize = 100000, reasoning = True, vision = True \<rparr> msA =
     msA\<lparr>ms_score := - 5,
         reasons := [''Over budget'', ''Meets context requirement'', ''No reasoning'',
                     ''Has vision'']\<rparr>"
    using t2 unfolding d e by blast
  show ?thesis using a b c p1 p2 p3 by blast
qed

lemma handleEnter_step:
  assumes "handleEnter nxt m = Inr (m', c)"
  shows "(step m = stepResults \<and> c = Quit \<and> m' = m) \<or>
    (step m \<noteq> stepResults \<and> c = NoCmd \<and> stepIndex (step m') = stepIndex (step m) + 1)"
  using assms
  by (cases "step m")
    (auto simp: handleEnter_def Let_def setupContextList_def setupReasoningList_def
      setupVisionList_def setupResultsList_def calculateScores_def split: if_splits)

lemma Update_step:
  assumes "Update nxt lu e m = Inr (m', NoCmd)"
  shows "if e = KeyEnter
         then step m \<noteq> stepResults \<and> stepIndex (step m') = stepIndex (step m) + 1
         else step m' = step m"
proof (cases e)
  case KeyEnter
  then have "handleEnter nxt m = Inr (m', NoCmd)"
    using assms by (simp add: Update_def)
  from handleEnter_step [OF this] show ?thesis using KeyEnter by auto
qed (use assms in \<open>auto simp: Update_def\<close>)

lemma runWizard_nonempty: "runWizard nxt lu es m \<noteq> []"
  by (cases es) (auto split: sum.splits prod.splits)

lemma runWizard_hd: "runWizard nxt lu es m ! 0 = m"
  by (cases es) (auto split: sum.splits prod.splits)

lemma runWizard_forward:
  "Suc i < length (runWizard nxt lu es m) \<Longrightarrow>
   (if es ! i = KeyEnter
    then step (runWizard nxt lu es m ! i) \<noteq> stepResults \<and>
         stepIndex (step (runWizard nxt lu es m ! Suc i)) =
           stepIndex (step (runWizard nxt lu es m ! i)) + 1
    else step (runWizard nxt lu es m ! Suc i) = step (runWizard nxt lu es m ! i))"
proof (induction es arbitrary: m i)
  case Nil
  then show ?case by simp
next
  case (Cons e es)
  from Cons.prems obtain m' where
    u: "Update nxt lu e m = Inr (m', NoCmd)"
    and r: "runWizard nxt lu (e # es) m = m # runWizard nxt lu es m'"
    by (auto split: sum.splits prod.splits if_splits intro: cmd.exhaust)
  have r0: "runWizard nxt lu (e # es) m ! 0 = m"
    and r1: "\<And>k. runWizard nxt lu (e # es) m ! Suc k = runWizard nxt lu es m' ! k"
    and rl: "length (runWizard nxt lu (e # es) m) = Suc (length (runWizard nxt lu es m'))"
    unfolding r by simp_all
  show ?case
  proof (cases i)
    case 0
    have s1: "runWizard nxt lu (e # es) m ! Suc 0 = m'"
      unfolding r1 by (rule runWizard_hd)
    have e0: "(e # es) ! 0 = e" by simp
    show ?thesis
      unfolding 0 r0 s1 e0 by (rule Update_step [OF u])
  next
    case (Suc k)
    then have "Suc k < length (runWizard nxt lu es m')"
      using Cons.prems rl by simp
    from Cons.IH [OF this] show ?thesis
      unfolding Suc r1 nth_Cons_Suc .
  qed
qed

text \<open>
  C8. For every sequence of input messages, along the states the session goes
  through, a consumed confirm (\<open>KeyEnter\<close>) moves the step forward by exactly one
  position in \<open>stepBudget\<close>, \<open>stepContext\<close>, \<open>stepReasoning\<close>, \<open>stepVision\<close>,
  \<open>stepResults\<close>, and every other consumed message leaves the step as it is: no
  transition goes backward. A confirm in \<open>stepResults\<close> yields no further state:
  \<^verbatim>\<open>handleEnter\<close> returns \<^verbatim>\<open>tea.Quit\<close> with the state unchanged (or panics, when the
  list index is not an index of \<open>choices\<close>), and the session ends there.
\<close>

theorem wizard_forward_only:
  "(Suc i < length (runWizard nxt lu es m) \<longrightarrow>
      (if es ! i = KeyEnter
       then step (runWizard nxt lu es m ! i) \<noteq> stepResults \<and>
            stepIndex (step (runWizard nxt lu es m ! Suc i)) =
              stepIndex (step (runWizard nxt lu es m ! i)) + 1
       else step (runWizard nxt lu es m ! Suc i) = step (runWizard nxt lu es m ! i))) \<and>
   (step m = stepResults \<longrightarrow>
      handleEnter nxt m =
        (if index (list m) < length (choices m) then Inr (m, Quit) else Inl IndexOutOfRange) \<and>
      runWizard nxt lu (KeyEnter # es) m = [m])"
proof -
  have b: "handleEnter nxt m =
        (if index (list m) < length (choices m) then Inr (m, Quit) else Inl IndexOutOfRange)"
    if "step m = stepResults"
    using that by (simp add: handleEnter_def Let_def)
  have c: "runWizard nxt lu (KeyEnter # es) m = [m]" if "step m = stepResults"
    using b [OF that] by (simp add: Update_def)
  show ?thesis using runWizard_forward [of i nxt lu es m] b c by blast
qed

theorem wizard_forward_only_witness:
  "Suc 0 < length (runWizard xorshift_Next keepCursor [KeyEnter, KeyEnter]
                     (initialModel [msA, msB])) \<and>
   [KeyEnter, KeyEnter] ! 0 = KeyEnter \<and>
   step (runWizard xorshift_Next keepCursor [KeyEnter, KeyEnter] (initialModel [msA, msB]) ! 0)
     \<noteq> stepResults \<and>
   stepIndex (step (runWizard xorshift_Next keepCursor [KeyEnter, KeyEnter]
                      (initialModel [msA, msB]) ! Suc 0)) =
     stepIndex (step (runWizard xorshift_Next keepCursor [KeyEnter, KeyEnter]
                      (initialModel [msA, msB]) ! 0)) + 1 \<and>
   step wizardResults = stepResults \<and>
   index (list wizardResults) < length (choices wizardResults) \<and>
   handleEnter xorshift_Next wizardResults = Inr (wizardResults, Quit) \<and>
   runWizard xorshift_Next keepCursor [KeyEnter, KeyDown] wizardResults = [wizardResults]"
proof -
  have a: "Suc 0 < length (runWizard xorshift_Next keepCursor [KeyEnter, KeyEnter]
                     (initialModel [msA, msB]))"
    by (simp add: Update_def handleEnter_def initialModel_def newList_def Let_def
        setupContextList_def setupReasoningList_def)
  have b: "[KeyEnter, KeyEnter] ! 0 = KeyEnter" by simp
  have c: "step wizardResults = stepResults \<and>
           index (list wizardResults) < length (choices wizardResults)"
    by (simp add: wizardResults_def initialModel_def newList_def)
  note t1 = wizard_forward_only
      [of 0 xorshift_Next keepCursor "[KeyEnter, KeyEnter]" "initialModel [msA, msB]"]
  note t2 = wizard_forward_only [of 0 xorshift_Next keepCursor "[KeyDown]" wizardResults]
  have p1: "step (runWizard xorshift_Next keepCursor [KeyEnter, KeyEnter]
                    (initialModel [msA, msB]) ! 0) \<noteq> stepResults \<and>
   stepIndex (step (runWizard xorshift_Next keepCursor [KeyEnter, KeyEnter]
                      (initialModel [msA, msB]) ! Suc 0)) =
     stepIndex (step (runWizard xorshift_Next keepCursor [KeyEnter, KeyEnter]
                      (initialModel [msA, msB]) ! 0)) + 1"
    using t1 a unfolding b by simp
  have p2: "handleEnter xorshift_Next wizardResults = Inr (wizardResults, Quit) \<and>
   runWizard xorshift_Next keepCursor [KeyEnter, KeyDown] wizardResults = [wizardResults]"
    using t2 c by simp
  show ?thesis using a b c p1 p2 by blast
qed

section \<open>Ranking\<close>

lemma score_order_keyLess: "(\<lambda>x y. score x > score y) = keyLess (\<lambda>x. - score x)"
  by (intro ext) (simp add: keyLess_def)

lemma ms_score_order_keyLess: "(\<lambda>x y. ms_score x > ms_score y) = keyLess (\<lambda>x. - ms_score x)"
  by (intro ext) (simp add: keyLess_def)

lemma sort_Slice_descending:
  "sorted_wrt (\<lambda>x y. f x \<ge> f y) (sort_Slice nxt (keyLess (\<lambda>x. - f x)) (xs :: 'a list))"
  for f :: "'a \<Rightarrow> real"
  using sort_Slice_sorted [of "\<lambda>x. - f x" nxt xs] by (simp add: sorted_map)

lemma sort_Slice_ties_small:
  fixes f :: "'a \<Rightarrow> real"
  assumes "length xs \<le> 12"
  shows "filter (\<lambda>x. f x = s) (sort_Slice nxt (keyLess (\<lambda>x. - f x)) xs) =
         filter (\<lambda>x. f x = s) xs"
  using sort_Slice_stable_small [OF assms, of "\<lambda>x. - f x" "- s" nxt] by simp

text \<open>
  C1, as amended. Both rankings (\<^verbatim>\<open>scoreModels\<close> of the search and
  \<^verbatim>\<open>calculateScores\<close> of the wizard) are a descending sort by score of the scored
  candidates: the result is a rearrangement of them with scores in non-increasing
  order, for every candidate list. With at most twelve candidates, the candidates
  of any one score \<open>s\<close> keep their original relative order. The ranking is a
  function of the candidate list (the generator \<open>nxt\<close> of the sort is seeded from
  the length of the list), so ranking the same list again gives the same list.
\<close>

theorem ranking_descending_ties_small:
  "mset (scoreModels nxt models) = mset (map (\<lambda>mm. mm\<lparr>score := simpleScore (model mm)\<rparr>) models) \<and>
   sorted_wrt (\<lambda>x y. score x \<ge> score y) (scoreModels nxt models) \<and>
   (length models \<le> 12 \<longrightarrow>
      filter (\<lambda>mm. score mm = s) (scoreModels nxt models) =
      filter (\<lambda>mm. score mm = s) (map (\<lambda>mm. mm\<lparr>score := simpleScore (model mm)\<rparr>) models)) \<and>
   mset (allModels (calculateScores nxt m)) = mset (map (scoreOne (requirements m)) (allModels m)) \<and>
   sorted_wrt (\<lambda>x y. ms_score x \<ge> ms_score y) (allModels (calculateScores nxt m)) \<and>
   (length (allModels m) \<le> 12 \<longrightarrow>
      filter (\<lambda>mm. ms_score mm = t) (allModels (calculateScores nxt m)) =
      filter (\<lambda>mm. ms_score mm = t) (map (scoreOne (requirements m)) (allModels m)))"
proof -
  have a: "mset (scoreModels nxt models) =
           mset (map (\<lambda>mm. mm\<lparr>score := simpleScore (model mm)\<rparr>) models)"
    unfolding scoreModels_def score_order_keyLess by (rule sort_Slice_mset)
  have b: "sorted_wrt (\<lambda>x y. score x \<ge> score y) (scoreModels nxt models)"
    unfolding scoreModels_def score_order_keyLess by (rule sort_Slice_descending)
  have c: "filter (\<lambda>mm. score mm = s) (scoreModels nxt models) =
      filter (\<lambda>mm. score mm = s) (map (\<lambda>mm. mm\<lparr>score := simpleScore (model mm)\<rparr>) models)"
    if "length models \<le> 12"
    unfolding scoreModels_def score_order_keyLess
    by (rule sort_Slice_ties_small) (use that in simp)
  have d: "mset (allModels (calculateScores nxt m)) =
           mset (map (scoreOne (requirements m)) (allModels m))"
    unfolding calculateScores_def ms_score_order_keyLess by (simp add: sort_Slice_mset)
  have e: "sorted_wrt (\<lambda>x y. ms_score x \<ge> ms_score y) (allModels (calculateScores nxt m))"
    unfolding calculateScores_def ms_score_order_keyLess by (simp add: sort_Slice_descending)
  have f: "filter (\<lambda>mm. ms_score mm = t) (allModels (calculateScores nxt m)) =
      filter (\<lambda>mm. ms_score mm = t) (map (scoreOne (requirements m)) (allModels m))"
    if "length (allModels m) \<le> 12"
    unfolding calculateScores_def ms_score_order_keyLess
    using that by (simp add: sort_Slice_ties_small)
  show ?thesis using a b c d e f by blast
qed

theorem ranking_descending_ties_small_witness:
  "length smallCandidates \<le> 12 \<and>
   map candidateID (filter (\<lambda>mm. score mm = 100) (scoreModels xorshift_Next smallCandidates)) =
     [''c00'', ''c01''] \<and>
   length (allModels wizardVision) \<le> 12 \<and>
   filter (\<lambda>mm. ms_score mm = 175) (allModels (calculateScores xorshift_Next wizardVision)) =
     [msB\<lparr>ms_score := 175,
          reasons := [''Well under budget'', ''Meets context requirement'', ''Has reasoning'']\<rparr>]"
proof -
  have l1: "length smallCandidates \<le> 12" by (simp add: smallCandidates_def)
  have l2: "length (allModels wizardVision) \<le> 12"
    by (simp add: wizardVision_def setupVisionList_def initialModel_def)
  have f1: "map candidateID (filter (\<lambda>mm. score mm = 100)
              (map (\<lambda>mm. mm\<lparr>score := simpleScore (model mm)\<rparr>) smallCandidates)) =
            [''c00'', ''c01'']"
    by (simp add: smallCandidates_def candidate_def simpleScore_def plainModel_def
        candidateID_def)
  have f2: "filter (\<lambda>mm. ms_score mm = 175)
              (map (scoreOne (requirements wizardVision)) (allModels wizardVision)) =
     [msB\<lparr>ms_score := 175,
          reasons := [''Well under budget'', ''Meets context requirement'', ''Has reasoning'']\<rparr>]"
    by (simp add: wizardVision_def setupVisionList_def initialModel_def scoreOne_def
        requirementScore_def msA_def msB_def modelA_def modelB_def Let_def)
  show ?thesis
    using ranking_descending_ties_small
            [of xorshift_Next smallCandidates 100 wizardVision 175] l1 l2 f1 f2
    by simp
qed

text \<open>
  C1 as stated fails: \<^verbatim>\<open>sort.Slice\<close> is not a stable sort. Of thirteen candidates,
  twelve of score 100 followed by one of score 110, \<^verbatim>\<open>scoreModels\<close> returns the
  candidates of score 100 in another order than they came in (\<open>c06\<close> before
  \<open>c02\<close>, and \<open>c01\<close> last): the partition around the pivot \<open>c06\<close> swaps it to
  the front and \<open>c12\<close> with \<open>c01\<close>.
\<close>

theorem ranking_ties_reordered_counterexample:
  "map candidateID tieCandidates =
     [''c00'', ''c01'', ''c02'', ''c03'', ''c04'', ''c05'', ''c06'', ''c07'', ''c08'', ''c09'',
      ''c10'', ''c11'', ''c12''] \<and>
   map candidateID (scoreModels xorshift_Next tieCandidates) =
     [''c12'', ''c06'', ''c02'', ''c03'', ''c04'', ''c05'', ''c00'', ''c07'', ''c08'', ''c09'',
      ''c10'', ''c11'', ''c01''] \<and>
   map score (scoreModels xorshift_Next tieCandidates) =
     [110, 100, 100, 100, 100, 100, 100, 100, 100, 100, 100, 100, 100]"
  by code_simp

end
